theory Spec2Isabelle
  imports Complex_Main "HOL-Library.Log_Nat" "HOL-Library.Char_ord" "HOL-Library.List_Lexorder"
begin

section \<open>The YOLOv2 data generator (utils/data_generator.py)\<close>

text \<open>
  The development embeds \<^verbatim>\<open>calc_augment_level\<close>, \<^verbatim>\<open>convert_opencv_to_box\<close> and the generator
  \<^verbatim>\<open>flow_from_list\<close>. Python exceptions are values of \<open>error\<close>; the locals of the
  generator frame are a record that every step returns updated. The collaborators that are
  imported from other modules (OpenCV, the augmentation transform, the label encoder, the
  random number generator, the file system) are the fields of an environment record, and the
  constants of the \<^verbatim>\<open>cfg\<close> module are the fields of a configuration record.
\<close>

datatype error =
  IndexError | ValueError | ZeroDivisionError | NameError | OverflowError | CvError

subsection \<open>Numbers\<close>

text \<open>
  NumPy and Python floats are IEEE 754 binary64 numbers. A float is modelled by the rational
  number it denotes, and every arithmetic operation is the exact operation followed by
  \<open>fl64\<close>, rounding to the nearest number with a 53-bit significand, ties to even. The
  exponent of \<open>fl64\<close> is unbounded, and the inputs are finite floats: NaN and gradual
  underflow are outside the model. \<open>inf64 x\<close> says that an operation with the exact result
  \<open>x\<close> overflows to infinity in float64, which is when the rounded result reaches
  \<open>2^1024\<close>, that is, when its binade is at least 1024. \<open>py_int\<close> is Python's \<^verbatim>\<open>int()\<close> on a finite float, which truncates
  towards zero; on an infinite float \<^verbatim>\<open>int()\<close> raises \<open>OverflowError\<close>, which the
  generator's conversions test with \<open>inf64\<close>.
\<close>

definition py_int :: "rat \<Rightarrow> int" where
  "py_int q = (if q < 0 then - \<lfloor>- q\<rfloor> else \<lfloor>q\<rfloor>)"

definition round_half_even :: "rat \<Rightarrow> int" where
  "round_half_even q =
     (let f = \<lfloor>q\<rfloor>; d = q - of_int f
      in if d < 1 / 2 then f else if 1 / 2 < d then f + 1 else if even f then f else f + 1)"

text \<open>\<open>binade x\<close> is the exponent \<open>e\<close> with \<open>2^e \<le> |x| < 2^(e+1)\<close>.\<close>

definition binade :: "rat \<Rightarrow> int" where
  "binade x =
     (let (a, b) = quotient_of \<bar>x\<bar>; e = bitlen a - bitlen b
      in if 2 powi e \<le> \<bar>x\<bar> then e else e - 1)"

definition fl64 :: "rat \<Rightarrow> rat" where
  "fl64 x =
     (if x = 0 then 0
      else let u = 2 powi (binade x - 52) in of_int (round_half_even (x / u)) * u)"

definition inf64 :: "rat \<Rightarrow> bool" where
  "inf64 x \<longleftrightarrow> 1024 \<le> binade (fl64 x)"

subsection \<open>Boxes (utils/box.py)\<close>

text \<open>
  A \<^verbatim>\<open>Box\<close> holds a centroid and a size. The OpenCV form of a box is its pair of corner
  points; the one-element collection around it (\<^verbatim>\<open>aug_box[0]\<close>) is left out.
\<close>

record box =
  box_xc :: rat
  box_yc :: rat
  box_w :: rat
  box_h :: rat

type_synonym point = "rat \<times> rat"
type_synonym corners = "point \<times> point"

text \<open>
  Modelled from the spec: \<^verbatim>\<open>Box.to_relative_size\<close> of utils/box.py is not part of the
  sources. It normalises a box to relative coordinates by dividing by the image width and
  height, and yields the four numbers \<open>[xc, yc, w, h]\<close>.
\<close>

definition to_relative_size :: "box \<Rightarrow> rat \<times> rat \<Rightarrow> rat list" where
  "to_relative_size b wh =
     (let (img_w, img_h) = wh
      in [fl64 (box_xc b / img_w), fl64 (box_yc b / img_h),
          fl64 (box_w b / img_w), fl64 (box_h b / img_h)])"

text \<open>
  Modelled from the spec: \<^verbatim>\<open>Box.to_opencv_format\<close> of utils/box.py is not part of the
  sources. It is the inverse of the corner-to-centroid conversion: the two corner points
  \<open>(xc - w/2, yc - h/2)\<close> and \<open>(xc + w/2, yc + h/2)\<close>.
\<close>

definition to_opencv_format :: "box \<Rightarrow> corners" where
  "to_opencv_format b =
     ((fl64 (box_xc b - fl64 (box_w b / 2)), fl64 (box_yc b - fl64 (box_h b / 2))),
      (fl64 (box_xc b + fl64 (box_w b / 2)), fl64 (box_yc b + fl64 (box_h b / 2))))"

text \<open>
  Modelled from the spec: \<^verbatim>\<open>convert_bbox\<close> of utils/box.py is not part of the sources.
  It computes \<open>xc = (x1 + x2) / 2\<close>, \<open>yc = (y1 + y2) / 2\<close>, \<open>w = |x2 - x1|\<close>,
  \<open>h = |y2 - y1|\<close>.
\<close>

definition convert_bbox :: "rat \<Rightarrow> rat \<Rightarrow> rat \<Rightarrow> rat \<Rightarrow> rat \<times> rat \<times> rat \<times> rat" where
  "convert_bbox x1 y1 x2 y2 =
     (fl64 (fl64 (x1 + x2) / 2), fl64 (fl64 (y1 + y2) / 2),
      \<bar>fl64 (x2 - x1)\<bar>, \<bar>fl64 (y2 - y1)\<bar>)"

definition convert_opencv_to_box :: "corners \<Rightarrow> box" where
  "convert_opencv_to_box cs =
     (let ((x1, y1), (x2, y2)) = cs;
          (xc, yc, w, h) = convert_bbox x1 y1 x2 y2
      in \<lparr>box_xc = xc, box_yc = yc, box_w = w, box_h = h\<rparr>)"

subsection \<open>The class-balance estimator\<close>

text \<open>
  \<^verbatim>\<open>np.unique(y[:,1], return_counts=True)\<close>: the sorted distinct labels, each with the
  number of its occurrences.
\<close>

definition np_unique :: "string list \<Rightarrow> (string \<times> nat) list" where
  "np_unique ls = map (\<lambda>c. (c, count_list ls c)) (sort (remdups ls))"

record aug_row =
  label :: string
  frequency :: nat
  scaling_factor :: int

text \<open>
  The data frame is a list of rows. The scaling factor is a float64 number.
  \<^verbatim>\<open>frequencies.mean\<close> sums in float64 and divides by the number of classes. On an
  empty \<open>y\<close> the frame has no row; what pandas does with it is not modelled.
  \<open>calc_augment_level\<close> is the table that is returned where no product overflows to
  infinity.
\<close>

definition calc_augment_level :: "(box \<times> string) list \<Rightarrow> rat \<Rightarrow> aug_row list" where
  "calc_augment_level y sf =
     (let cf = np_unique (map snd y);
          mean = fl64 (of_nat (sum_list (map snd cf)) / of_nat (length cf))
      in map (\<lambda>(c, f). \<lparr>label = c, frequency = f,
                scaling_factor = py_int (fl64 (sf * fl64 (mean / of_nat f)))\<rparr>) cf)"


subsection \<open>Configuration and collaborators\<close>

text \<open>
  The constants of the \<^verbatim>\<open>cfg\<close> module, which is not part of the sources, are parameters.
  \<open>CLASSES\<close> is the list of lines of the \<^verbatim>\<open>CATEGORIES\<close> file, read when the generator starts.
\<close>

record cfg =
  IMG_INPUT :: nat
  SHRINK_FACTOR :: nat
  N_ANCHORS :: nat
  N_CLASSES :: nat
  MULTI_SCALE :: "rat list"
  CLASSES :: "string list"

text \<open>
  The collaborators. \<open>'img\<close> is an image, \<open>'pimg\<close> a preprocessed image, \<open>'g\<close> the state
  of the random number generators. \<open>imread\<close> yields \<open>None\<close> where OpenCV cannot decode the
  file; \<open>shape\<close> is \<open>(height, width)\<close>; \<open>resize\<close> takes \<open>(width, height)\<close>;
  \<open>shuffle g n\<close> is the order in which \<^verbatim>\<open>sklearn.utils.shuffle\<close> arranges \<open>n\<close> entries.
\<close>

record ('img, 'pimg, 'g) env =
  isfile :: "string \<Rightarrow> bool"
  imread :: "string \<Rightarrow> 'img option"
  cvtColor :: "'img \<Rightarrow> 'img"
  shape :: "'img \<Rightarrow> nat \<times> nat"
  resize :: "'img \<Rightarrow> nat \<times> nat \<Rightarrow> 'img"
  preprocess_img :: "'img \<Rightarrow> 'pimg"
  encode_label :: "nat \<Rightarrow> rat list"
  random_transform :: "'g \<Rightarrow> 'img \<Rightarrow> corners \<Rightarrow> ('img \<times> corners) \<times> 'g"
  random_integers :: "'g \<Rightarrow> nat \<Rightarrow> nat \<times> 'g"
  shuffle :: "'g \<Rightarrow> nat \<Rightarrow> nat list \<times> 'g"

text \<open>
  The locals of the generator frame that outlive one statement. \<open>xy\<close> is the pair of
  parallel lists \<open>x\<close> and \<open>y\<close>, kept zipped: entry \<open>(filename, bbox, label)\<close>.
  \<open>stdout\<close> collects what is printed. \<open>transform_calls\<close> is not a variable of the
  program: it records the arguments of every call of \<^verbatim>\<open>random_transform\<close>, in order.
\<close>

record ('img, 'pimg, 'g) frame =
  xy :: "(string \<times> box \<times> string) list"
  multi_scale :: "rat option"
  X :: "'pimg list"
  Y :: "rat list list"
  rng :: 'g
  stdout :: "string list"
  transform_calls :: "('img \<times> corners) list"

subsection \<open>The sample builder (lines 89 to 135)\<close>

text \<open>
  \<open>CLASSES\<close> is a NumPy array of fixed-width unicode strings. Such a string ends where its
  trailing NUL characters begin, in the array and in the label that is compared with it:
  \<open>np_str s\<close> is \<open>s\<close> as NumPy reads it.
\<close>

definition np_str :: "string \<Rightarrow> string" where
  "np_str s = rev (dropWhile (\<lambda>c. c = CHR 0x00) (rev s))"

text \<open>\<^verbatim>\<open>np.where(CLASSES == label)[0][0]\<close>: the first index at which the label occurs.\<close>

fun first_index :: "string list \<Rightarrow> string \<Rightarrow> nat option" where
  "first_index [] l = None"
| "first_index (c # cs) l =
     (if np_str c = np_str l then Some 0 else map_option Suc (first_index cs l))"

definition index_label :: "string list \<Rightarrow> string \<Rightarrow> error + nat" where
  "index_label classes l = (case first_index classes l of None \<Rightarrow> Inl IndexError | Some i \<Rightarrow> Inr i)"

text \<open>
  \<^verbatim>\<open>augment_level.loc[augment_level['label'] == label, 'scaling_factor'].values[0]\<close>.
\<close>

definition aug_level_of :: "aug_row list \<Rightarrow> string \<Rightarrow> error + int" where
  "aug_level_of augment_level l =
     (case filter (\<lambda>row. label row = l) augment_level of
        [] \<Rightarrow> Inl IndexError
      | row # _ \<Rightarrow> Inr (scaling_factor row))"

text \<open>Lines 125 to 127: the test that makes the loop skip an augmented variant.\<close>

definition out_of_bound :: "nat \<Rightarrow> nat \<Rightarrow> corners \<Rightarrow> bool" where
  "out_of_bound width height aug_box =
     (let ((x1, y1), (x2, y2)) = aug_box;
          p1 = (fl64 (of_nat width - x1), fl64 (of_nat height - y1));
          p2 = (fl64 (of_nat width - x2), fl64 (of_nat height - y2))
      in (fst p1 < 0 \<or> snd p1 < 0) \<or> (fst p2 < 0 \<or> snd p2 < 0))"

text \<open>Lines 120 to 135: the loop \<^verbatim>\<open>for l in list(range(aug_level))\<close>.\<close>

fun augment_variants ::
  "('img, 'pimg, 'g) env \<Rightarrow> nat \<Rightarrow> 'img \<Rightarrow> box \<Rightarrow> nat \<Rightarrow> nat \<Rightarrow> rat list \<Rightarrow>
   ('img, 'pimg, 'g) frame \<Rightarrow> ('img, 'pimg, 'g) frame" where
  "augment_variants E 0 img bbox width height one_hot s = s"
| "augment_variants E (Suc n) img bbox width height one_hot s =
     (let ((aug_img, aug_box), g) = random_transform E (rng s) img (to_opencv_format bbox);
          s1 = s\<lparr>rng := g,
                 transform_calls := transform_calls s @ [(img, to_opencv_format bbox)]\<rparr>
      in if out_of_bound width height aug_box
         then augment_variants E n img bbox width height one_hot s1
         else augment_variants E n img bbox width height one_hot
                (s1\<lparr>X := X s1 @ [preprocess_img E aug_img],
                    Y := Y s1 @ [to_relative_size (convert_opencv_to_box aug_box)
                                   (of_nat width, of_nat height) @ [1] @ one_hot]\<rparr>))"

text \<open>
  Lines 95 to 103: the image as it is passed on, with the height and the width it had when
  it was read. \<^verbatim>\<open>cv2.cvtColor\<close> rejects the \<^verbatim>\<open>None\<close> of an unreadable file,
  \<^verbatim>\<open>int()\<close> rejects an infinite product, and \<^verbatim>\<open>cv2.resize\<close> rejects an empty
  target size.
\<close>

definition load_image ::
  "('img, 'pimg, 'g) env \<Rightarrow> cfg \<Rightarrow> bool \<Rightarrow> rat option \<Rightarrow> string \<Rightarrow> error + 'img \<times> nat \<times> nat" where
  "load_image E C augment_data ms filename =
     (case imread E filename of
        None \<Rightarrow> Inl CvError
      | Some raw \<Rightarrow>
          let img0 = cvtColor E raw;
              (height, width) = shape E img0
          in if IMG_INPUT C = 0 then Inl CvError
             else
               let img1 = resize E img0 (IMG_INPUT C, IMG_INPUT C)
               in if augment_data
                  then (case ms of
                          None \<Rightarrow> Inl NameError
                        | Some m \<Rightarrow>
                            let new_height = py_int (fl64 (of_nat (IMG_INPUT C) * m));
                                new_width = py_int (fl64 (of_nat (IMG_INPUT C) * m))
                            in if inf64 (of_nat (IMG_INPUT C) * m) then Inl OverflowError
                               else if new_width \<le> 0 \<or> new_height \<le> 0 then Inl CvError
                               else Inr (resize E img1 (nat new_width, nat new_height),
                                         height, width))
                  else Inr (img1, height, width))"

text \<open>Lines 90 to 135: the body of the loop over the entries of a slice.\<close>

definition build_sample ::
  "('img, 'pimg, 'g) env \<Rightarrow> cfg \<Rightarrow> bool \<Rightarrow> aug_row list \<Rightarrow>
   string \<times> box \<times> string \<Rightarrow> ('img, 'pimg, 'g) frame \<Rightarrow> error + ('img, 'pimg, 'g) frame" where
  "build_sample E C augment_data augment_level entry s =
     (let (filename, bbox, l) = entry
      in if \<not> isfile E filename then Inr (s\<lparr>stdout := stdout s @ [''Image Not Found'']\<rparr>)
         else case load_image E C augment_data (multi_scale s) filename of
           Inl e \<Rightarrow> Inl e
         | Inr (img, height, width) \<Rightarrow>
             let processed_img = preprocess_img E img
             in case index_label (CLASSES C) l of
                  Inl e \<Rightarrow> Inl e
                | Inr i \<Rightarrow>
                    let one_hot = encode_label E i;
                        b = to_relative_size bbox (of_nat width, of_nat height);
                        s1 = s\<lparr>X := X s @ [processed_img], Y := Y s @ [b @ [1] @ one_hot]\<rparr>
                    in if augment_data
                       then (case aug_level_of augment_level l of
                               Inl e \<Rightarrow> Inl e
                             | Inr aug_level \<Rightarrow>
                                 Inr (augment_variants E (nat aug_level) img bbox
                                        width height one_hot s1))
                       else Inr s1)"

text \<open>Line 89: \<^verbatim>\<open>for filename, label in list(zip(f_name, labels))\<close>.\<close>

fun build_slice ::
  "('img, 'pimg, 'g) env \<Rightarrow> cfg \<Rightarrow> bool \<Rightarrow> aug_row list \<Rightarrow>
   (string \<times> box \<times> string) list \<Rightarrow> ('img, 'pimg, 'g) frame \<Rightarrow> error + ('img, 'pimg, 'g) frame" where
  "build_slice E C augment_data augment_level [] s = Inr s"
| "build_slice E C augment_data augment_level (entry # entries) s =
     (case build_sample E C augment_data augment_level entry s of
        Inl e \<Rightarrow> Inl e
      | Inr s1 \<Rightarrow> build_slice E C augment_data augment_level entries s1)"

subsection \<open>The grid encoder (lines 148 to 166)\<close>

text \<open>
  One sample's part of \<^verbatim>\<open>y_batch\<close> is a grid: rows, columns, anchor slots, entries.
  \<open>np_index\<close> is NumPy's reading of an integer index along an axis of \<open>n\<close> entries:
  a negative index counts from the end, and an index outside \<open>[-n, n)\<close> raises.
\<close>

type_synonym cell = "rat list list"
type_synonym grid = "cell list list"

definition np_zeros :: "nat \<Rightarrow> nat \<Rightarrow> nat \<Rightarrow> nat \<Rightarrow> grid" where
  "np_zeros rows cols anchors entries =
     replicate rows (replicate cols (replicate anchors (replicate entries 0)))"

definition np_index :: "nat \<Rightarrow> int \<Rightarrow> error + nat" where
  "np_index n i =
     (if 0 \<le> i \<and> i < int n then Inr (nat i)
      else if - int n \<le> i \<and> i < 0 then Inr (nat (int n + i))
      else Inl IndexError)"

text \<open>
  NumPy broadcasts the class part of a label vector into the \<open>N_CLASSES\<close> entries of an
  anchor slot: a part of that length is copied, a part of length one is repeated, any other
  length raises.
\<close>

definition broadcast :: "nat \<Rightarrow> rat list \<Rightarrow> rat list option" where
  "broadcast n v =
     (if length v = n then Some v
      else if length v = 1 then Some (replicate n (v ! 0))
      else None)"

text \<open>
  Lines 161 to 163: the three slice assignments at \<^verbatim>\<open>y_batch[b, c, r]\<close>. The box part
  \<^verbatim>\<open>labels[b][..., :4]\<close> must have four entries, and an empty list of anchors cannot be
  broadcast.
\<close>

definition write_cell :: "cfg \<Rightarrow> rat list \<Rightarrow> grid \<Rightarrow> int \<Rightarrow> int \<Rightarrow> error + grid" where
  "write_cell C lab g c r =
     (case np_index (length g) c of
        Inl e \<Rightarrow> Inl e
      | Inr ci \<Rightarrow>
          (case np_index (length (g ! ci)) r of
             Inl e \<Rightarrow> Inl e
           | Inr ri \<Rightarrow>
               if N_ANCHORS C = 0 \<or> length (take 4 lab) \<noteq> 4 then Inl ValueError
               else (case broadcast (N_CLASSES C) (drop 5 lab) of
                       None \<Rightarrow> Inl ValueError
                     | Some cls \<Rightarrow>
                         Inr (g[ci := (g ! ci)[ri := replicate (N_ANCHORS C)
                                                       (take 4 lab @ [1] @ cls)]]))))"

text \<open>
  Lines 155 to 163: the body of \<^verbatim>\<open>for b in range(batch_size)\<close> for one label vector.
  Where a product of lines 155 and 156 is infinite, \<^verbatim>\<open>int(np.floor(\<dots>))\<close> raises.
\<close>

definition encode_sample :: "cfg \<Rightarrow> rat \<Rightarrow> rat \<Rightarrow> rat list \<Rightarrow> error + grid" where
  "encode_sample C grid_w grid_h lab =
     (if length lab < 2 then Inl IndexError
      else if inf64 (lab ! 0 * grid_w) \<or> inf64 (lab ! 1 * grid_h) then Inl OverflowError
      else
        let center_x = fl64 (lab ! 0 * grid_w);
            center_y = fl64 (lab ! 1 * grid_h);
            r = \<lfloor>center_x\<rfloor>;
            c = \<lfloor>center_y\<rfloor>;
            g = np_zeros (nat (py_int grid_h)) (nat (py_int grid_w)) (N_ANCHORS C) (5 + N_CLASSES C)
        in if of_int r < grid_w \<and> of_int c < grid_h then write_cell C lab g c r else Inr g)"

fun map_err :: "('a \<Rightarrow> error + 'b) \<Rightarrow> 'a list \<Rightarrow> error + 'b list" where
  "map_err f [] = Inr []"
| "map_err f (a # as) =
     (case f a of
        Inl e \<Rightarrow> Inl e
      | Inr b \<Rightarrow> (case map_err f as of Inl e \<Rightarrow> Inl e | Inr bs \<Rightarrow> Inr (b # bs)))"

text \<open>
  Lines 148 to 163. \<^verbatim>\<open>np.zeros\<close> rejects a negative dimension, and \<^verbatim>\<open>labels[b]\<close>
  raises beyond the last label vector.
\<close>

definition encode_batch :: "cfg \<Rightarrow> nat \<Rightarrow> rat \<Rightarrow> rat \<Rightarrow> rat list list \<Rightarrow> error + grid list" where
  "encode_batch C batch_size grid_w grid_h labels =
     (if py_int grid_h < 0 \<or> py_int grid_w < 0 then Inl ValueError
      else map_err (\<lambda>b. if b < length labels then encode_sample C grid_w grid_h (labels ! b)
                         else Inl IndexError) [0..<batch_size])"

text \<open>Line 166: the anchor slots of a cell are laid out one after the other.\<close>

definition reshape :: "grid list \<Rightarrow> rat list list list list" where
  "reshape y_batch = map (map (map concat)) y_batch"

subsection \<open>The generator loop (lines 69 to 166)\<close>











subsection \<open>Frames that differ in the printed output only\<close>

definition same_but_stdout :: "('img, 'pimg, 'g) frame \<Rightarrow> ('img, 'pimg, 'g) frame \<Rightarrow> bool" where
  "same_but_stdout s1 s2 \<longleftrightarrow> s1\<lparr>stdout := []\<rparr> = s2\<lparr>stdout := []\<rparr>"

section \<open>Concrete inputs\<close>

text \<open>The inputs at which the theorems below are evaluated.\<close>

definition box0 :: box where
  "box0 = \<lparr>box_xc = 50, box_yc = 50, box_w = 20, box_h = 20\<rparr>"




definition labels_3_1 :: "(box \<times> string) list" where
  "labels_3_1 = [(box0, ''a''), (box0, ''b''), (box0, ''a''), (box0, ''a'')]"

text \<open>
  A configuration with a 13 by 13 grid, and collaborators on images that are only a height
  and a width: every file but \<open>missing.jpg\<close> exists and holds an image of height 100 and
  width 200; \<open>resize\<close> sets the size; the class encoding is one-hot over three classes;
  the augmentation transform moves the box by \<open>60 * g - 60\<close> pixels in both directions,
  where \<open>g\<close> counts the random draws; the shuffle keeps the order.
\<close>

definition cfg0 :: cfg where
  "cfg0 = \<lparr>IMG_INPUT = 416, SHRINK_FACTOR = 32, N_ANCHORS = 2, N_CLASSES = 3,
           MULTI_SCALE = [1], CLASSES = [''a'', ''b'', ''c'']\<rparr>"

definition env0 :: "(nat \<times> nat, nat \<times> nat, nat) env" where
  "env0 = \<lparr>isfile = (\<lambda>f. f \<noteq> ''missing.jpg''),
           imread = (\<lambda>f. Some (100, 200)),
           cvtColor = (\<lambda>img. img),
           shape = (\<lambda>img. img),
           resize = (\<lambda>img (width, height). (height, width)),
           preprocess_img = (\<lambda>img. img),
           encode_label = (\<lambda>i. map (\<lambda>j. if j = i then 1 else 0) [0..<3]),
           random_transform = (\<lambda>g img ((x1, y1), (x2, y2)).
             ((img, ((x1 + 60 * of_nat g - 60, y1 + 60 * of_nat g - 60),
                     (x2 + 60 * of_nat g - 60, y2 + 60 * of_nat g - 60))), Suc g)),
           random_integers = (\<lambda>g high. (0, Suc g)),
           shuffle = (\<lambda>g n. ([0..<n], g))\<rparr>"

definition frame0 :: "(nat \<times> nat, nat \<times> nat, nat) frame" where
  "frame0 = \<lparr>xy = [], multi_scale = Some 1, X = [], Y = [], rng = 0, stdout = [],
             transform_calls = []\<rparr>"

text \<open>An augmentation plan with one variant for class \<open>b\<close>.\<close>

definition row_b :: "aug_row list" where
  "row_b = [\<lparr>label = ''b'', frequency = 1, scaling_factor = 1\<rparr>]"

text \<open>
  Label vectors for a 13 by 13 grid with three classes: a centroid at
  \<open>(0.999999, 0.999999)\<close>, one at \<open>(1.0, 1.0)\<close>, one left of the image at
  \<open>(-2.0, 0.5)\<close> and one just left of it at \<open>(-0.1, 0.5)\<close>; and a batch of the first
  two with its label grids.
\<close>

definition lab_corner :: "rat list" where
  "lab_corner = [fl64 (999999 / 1000000), fl64 (999999 / 1000000), fl64 (1 / 10), fl64 (1 / 10),
                 1, 0, 1, 0]"

definition lab_one :: "rat list" where
  "lab_one = [1, 1, fl64 (1 / 10), fl64 (1 / 10), 1, 0, 1, 0]"

definition lab_far_left :: "rat list" where
  "lab_far_left = [- 2, 1 / 2, fl64 (1 / 10), fl64 (1 / 10), 1, 0, 1, 0]"

definition lab_left :: "rat list" where
  "lab_left = [fl64 (- 1 / 10), 1 / 2, fl64 (1 / 10), fl64 (1 / 10), 1, 0, 1, 0]"

definition labels0 :: "rat list list" where
  "labels0 = [lab_corner, lab_one]"

definition y_batch0 :: "grid list" where
  "y_batch0 = [(np_zeros 13 13 2 8)[12 := (np_zeros 13 13 2 8 ! 12)[12 := replicate 2 lab_corner]],
               np_zeros 13 13 2 8]"






text \<open>A class name that ends in a NUL character, and a centroid at \<open>2^1023\<close>, near \<open>9e307\<close>.\<close>

definition label_nul :: string where
  "label_nul = ''a'' @ [CHR 0x00]"

definition lab_huge :: "rat list" where
  "lab_huge = [2 ^ 1023, 1 / 2, fl64 (1 / 10), fl64 (1 / 10), 1, 0, 1, 0]"

section \<open>Properties of the arithmetic\<close>

subsection \<open>Rounding to binary64\<close>

lemma bitlen_rat_bounds:
  fixes a :: int
  assumes "0 < a"
  shows "(2::rat) powi (bitlen a - 1) \<le> of_int a" "(of_int a :: rat) < 2 powi (bitlen a)"
proof -
  from assms have b1: "1 \<le> bitlen a" by (auto simp: bitlen_alt_def)
  from bitlen_bounds [OF assms] have lo: "2 ^ nat (bitlen a - 1) \<le> a" and hi: "a < 2 ^ nat (bitlen a)"
    by auto
  have "(of_int (2 ^ nat (bitlen a - 1)) :: rat) \<le> of_int a"
    using lo by (simp only: of_int_le_iff)
  then show "(2::rat) powi (bitlen a - 1) \<le> of_int a"
    using b1 by (simp add: power_int_def)
  have "(of_int a :: rat) < of_int (2 ^ nat (bitlen a))"
    using hi by (simp only: of_int_less_iff)
  then show "(of_int a :: rat) < 2 powi (bitlen a)"
    using b1 by (simp add: power_int_def)
qed

lemma binade_bounds:
  assumes "x \<noteq> 0"
  shows "2 powi (binade x) \<le> \<bar>x\<bar>" "\<bar>x\<bar> < 2 powi (binade x + 1)"
proof -
  obtain a b where q: "quotient_of \<bar>x\<bar> = (a, b)" by (cases "quotient_of \<bar>x\<bar>")
  then have b: "0 < b" by (rule quotient_of_denom_pos)
  have xe: "\<bar>x\<bar> = of_int a / of_int b" using q by (rule quotient_of_div)
  have "0 < \<bar>x\<bar>" using assms by simp
  then have a: "0 < a" using xe b by (simp add: zero_less_divide_iff)
  let ?e = "bitlen a - bitlen b"
  note A = bitlen_rat_bounds [OF a] and B = bitlen_rat_bounds [OF b]
  have bpos: "(0::rat) < of_int b" using b by simp
  have up: "\<bar>x\<bar> < 2 powi (?e + 1)"
  proof -
    have "of_int a < (2::rat) powi (bitlen a)" by (rule A)
    also have "\<dots> = 2 powi (?e + 1) * 2 powi (bitlen b - 1)"
      by (simp add: power_int_add [symmetric])
    also have "\<dots> \<le> 2 powi (?e + 1) * of_int b"
      using B(1) by (intro mult_left_mono) auto
    finally show ?thesis using bpos by (simp add: xe pos_divide_less_eq)
  qed
  have lo: "2 powi (?e - 1) \<le> \<bar>x\<bar>"
  proof -
    have "2 powi (?e - 1) * of_int b \<le> (2::rat) powi (?e - 1) * 2 powi (bitlen b)"
      using B(2) by (intro mult_left_mono) auto
    also have "\<dots> = 2 powi (bitlen a - 1)"
      by (simp add: power_int_add [symmetric])
    also have "\<dots> \<le> of_int a" by (rule A)
    finally show ?thesis using bpos by (simp add: xe pos_le_divide_eq)
  qed
  show "2 powi (binade x) \<le> \<bar>x\<bar>"
    using lo by (simp add: binade_def q Let_def)
  show "\<bar>x\<bar> < 2 powi (binade x + 1)"
    using up by (auto simp add: binade_def q Let_def not_le)
qed

lemma binade_unique:
  assumes "2 powi e \<le> \<bar>x\<bar>" "\<bar>x\<bar> < 2 powi (e + 1)"
  shows "binade x = e"
proof -
  have "(0::rat) < 2 powi e" by (simp add: zero_less_power_int)
  with assms(1) have "0 < \<bar>x\<bar>" by linarith
  then have x: "x \<noteq> 0" by simp
  note B = binade_bounds [OF x]
  have "(2::rat) powi e < 2 powi (binade x + 1)" using assms(1) B(2) by simp
  then have 1: "e < binade x + 1"
    using power_int_increasing [of "binade x + 1" e "2::rat"] by (cases "e < binade x + 1") auto
  have "(2::rat) powi (binade x) < 2 powi (e + 1)" using assms(2) B(1) by simp
  then have 2: "binade x < e + 1"
    using power_int_increasing [of "e + 1" "binade x" "2::rat"] by (cases "binade x < e + 1") auto
  from 1 2 show ?thesis by simp
qed


lemma round_half_even_of_int [simp]: "round_half_even (of_int n) = n"
  by (simp add: round_half_even_def)

lemma round_half_even_mono:
  assumes "x \<le> y"
  shows "round_half_even x \<le> round_half_even y"
proof (cases "\<lfloor>x\<rfloor> = \<lfloor>y\<rfloor>")
  case True
  then show ?thesis using assms unfolding round_half_even_def Let_def by auto
next
  case False
  then have "\<lfloor>x\<rfloor> + 1 \<le> \<lfloor>y\<rfloor>" using floor_mono [OF assms] by simp
  moreover have "round_half_even x \<le> \<lfloor>x\<rfloor> + 1"
    unfolding round_half_even_def Let_def by auto
  moreover have "\<lfloor>y\<rfloor> \<le> round_half_even y"
    unfolding round_half_even_def Let_def by auto
  ultimately show ?thesis by linarith
qed

lemma round_half_even_minus: "round_half_even (- y) = - round_half_even y"
proof (cases "y \<in> \<int>")
  case True
  then obtain n where "y = of_int n" by (auto elim: Ints_cases)
  then show ?thesis by (simp flip: of_int_minus)
next
  case False
  have ne: "y \<noteq> of_int \<lfloor>y\<rfloor>"
  proof
    assume e: "y = of_int \<lfloor>y\<rfloor>"
    have "y \<in> \<int>" by (subst e) (rule Ints_of_int)
    with False show False ..
  qed
  then have f: "\<lfloor>- y\<rfloor> = - \<lfloor>y\<rfloor> - 1"
    by (simp add: floor_minus ceiling_altdef)
  have lt: "of_int \<lfloor>y\<rfloor> < y"
    by (rule order.not_eq_order_implies_strict [OF ne [symmetric] of_int_floor_le])
  show ?thesis unfolding round_half_even_def Let_def f
    using lt by (auto simp: algebra_simps)
qed

lemma binade_minus [simp]: "binade (- x) = binade x"
  by (simp add: binade_def)

lemma fl64_minus: "fl64 (- x) = - fl64 x"
  by (simp add: fl64_def Let_def round_half_even_minus)

lemma powi_split: "(2::rat) powi k = 2 ^ n * 2 powi (k - int n)"
proof -
  have "(2::rat) powi k = 2 powi (int n + (k - int n))" by simp
  also have "\<dots> = 2 powi (int n) * 2 powi (k - int n)" by (rule power_int_add) simp
  finally show ?thesis by simp
qed

lemma powi_52: "(2::rat) powi k = 2 ^ 52 * 2 powi (k - 52)"
  using powi_split [of k 52] by simp

lemma powi_53: "(2::rat) powi (k + 1) = 2 ^ 53 * 2 powi (k - 52)"
  using powi_split [of "k + 1" 53] by simp

lemma fl64_zero [simp]: "fl64 0 = 0"
  by (simp add: fl64_def)

text \<open>The scaled significand lies in [2^52, 2^53).\<close>

lemma significand_bounds:
  assumes "0 < x"
  shows "2 ^ 52 \<le> x / 2 powi (binade x - 52)" "x / 2 powi (binade x - 52) < 2 ^ 53"
proof -
  have x: "x \<noteq> 0" using assms by simp
  note B = binade_bounds [OF x]
  have u: "(0::rat) < 2 powi (binade x - 52)" by (simp add: zero_less_power_int)
  have ax: "\<bar>x\<bar> = x" using assms by simp
  show "2 ^ 52 \<le> x / 2 powi (binade x - 52)"
    using B(1) u unfolding ax by (subst pos_le_divide_eq) (simp_all only: powi_52 [symmetric])
  show "x / 2 powi (binade x - 52) < 2 ^ 53"
    using B(2) u unfolding ax by (subst pos_divide_less_eq) (simp_all only: powi_53 [symmetric])
qed

lemma fl64_pos_bounds:
  assumes "0 < x"
  shows "2 powi (binade x) \<le> fl64 x" "fl64 x \<le> 2 powi (binade x + 1)"
proof -
  let ?u = "(2::rat) powi (binade x - 52)"
  let ?m = "round_half_even (x / ?u)"
  have u: "0 < ?u" by (simp add: zero_less_power_int)
  note S = significand_bounds [OF assms]
  have "round_half_even (of_int (2 ^ 52)) \<le> ?m"
    using S(1) by (intro round_half_even_mono) simp
  then have lo: "2 ^ 52 \<le> ?m" by (simp only: round_half_even_of_int)
  have "?m \<le> round_half_even (of_int (2 ^ 53))"
    using S(2) by (intro round_half_even_mono) simp
  then have hi: "?m \<le> 2 ^ 53" by (simp only: round_half_even_of_int)
  have fx: "fl64 x = of_int ?m * ?u" using assms by (simp add: fl64_def Let_def)
  have lo': "(of_int (2 ^ 52) :: rat) \<le> of_int ?m" using lo by (simp only: of_int_le_iff)
  have hi': "(of_int ?m :: rat) \<le> of_int (2 ^ 53)" using hi by (simp only: of_int_le_iff)
  have "(2::rat) powi (binade x) = of_int (2 ^ 52) * ?u" by (subst powi_52) simp
  also have "\<dots> \<le> of_int ?m * ?u"
    using lo' u by (intro mult_right_mono) simp_all
  finally show "2 powi (binade x) \<le> fl64 x" by (simp only: fx)
  have "of_int ?m * ?u \<le> of_int (2 ^ 53) * ?u"
    using hi' u by (intro mult_right_mono) simp_all
  also have "\<dots> = 2 powi (binade x + 1)" by (subst powi_53) simp
  finally show "fl64 x \<le> 2 powi (binade x + 1)" by (simp only: fx)
qed

lemma fl64_pos: "0 < x \<Longrightarrow> 0 < fl64 x"
  using fl64_pos_bounds(1) [of x] zero_less_power_int [of "2::rat" "binade x"]
  by linarith

lemma fl64_neg: "x < 0 \<Longrightarrow> fl64 x < 0"
  using fl64_pos [of "- x"] by (simp add: fl64_minus)

lemma fl64_less_zero_iff [simp]: "fl64 x < 0 \<longleftrightarrow> x < 0"
proof (cases x "0::rat" rule: linorder_cases)
  case less
  then show ?thesis using fl64_neg [of x] by simp
next
  case equal
  then show ?thesis by simp
next
  case greater
  then show ?thesis using fl64_pos [of x] by simp
qed

lemma zero_less_fl64_iff [simp]: "0 < fl64 x \<longleftrightarrow> 0 < x"
  using fl64_less_zero_iff [of "- x"] by (simp add: fl64_minus)

lemma zero_le_fl64_iff [simp]: "0 \<le> fl64 x \<longleftrightarrow> 0 \<le> x"
  using fl64_less_zero_iff [of x] by (simp only: not_less [symmetric])

lemma fl64_mono_pos:
  assumes "0 < x" "x \<le> y"
  shows "fl64 x \<le> fl64 y"
proof -
  have y: "0 < y" using assms by simp
  have xn: "x \<noteq> 0" and yn: "y \<noteq> 0" using assms by auto
  note Bx = binade_bounds [OF xn] and By = binade_bounds [OF yn]
  have "(2::rat) powi (binade x) < 2 powi (binade y + 1)"
    using Bx(1) By(2) assms by simp
  then have le: "binade x \<le> binade y"
    using power_int_increasing [of "binade y + 1" "binade x" "2::rat"]
    by (cases "binade x \<le> binade y") auto
  show ?thesis
  proof (cases "binade x = binade y")
    case True
    let ?u = "(2::rat) powi (binade y - 52)"
    have u: "0 < ?u" by (simp add: zero_less_power_int)
    have "x / ?u \<le> y / ?u" using assms(2) u by (simp add: divide_right_mono)
    then have "round_half_even (x / ?u) \<le> round_half_even (y / ?u)"
      by (rule round_half_even_mono)
    then have "(of_int (round_half_even (x / ?u)) :: rat) * ?u \<le> of_int (round_half_even (y / ?u)) * ?u"
      using u by (intro mult_right_mono) simp_all
    then show ?thesis using xn yn True by (simp add: fl64_def Let_def)
  next
    case False
    with le have "binade x + 1 \<le> binade y" by simp
    then have "(2::rat) powi (binade x + 1) \<le> 2 powi (binade y)"
      by (intro power_int_increasing) simp_all
    with fl64_pos_bounds(2) [OF assms(1)] fl64_pos_bounds(1) [OF y]
    show ?thesis by linarith
  qed
qed

lemma fl64_mono:
  assumes "x \<le> y"
  shows "fl64 x \<le> fl64 y"
proof -
  consider "0 < x" | "x \<le> 0" "0 \<le> y" | "y < 0" using assms by linarith
  then show ?thesis
  proof cases
    case 1
    then show ?thesis using assms by (rule fl64_mono_pos)
  next
    case 2
    then have "fl64 x \<le> 0" "0 \<le> fl64 y"
      by (simp_all add: not_less [symmetric])
    then show ?thesis by linarith
  next
    case 3
    then have "0 < - y" "- y \<le> - x" using assms by simp_all
    then have "fl64 (- y) \<le> fl64 (- x)" by (rule fl64_mono_pos)
    then show ?thesis by (simp add: fl64_minus)
  qed
qed

text \<open>Numbers with a significand of at most 53 bits are represented exactly.\<close>

lemma fl64_exact_pos:
  fixes m :: int
  assumes "2 ^ 52 \<le> m" "m < 2 ^ 53"
  shows "fl64 (of_int m * 2 powi j) = of_int m * 2 powi j"
proof -
  let ?x = "of_int m * (2::rat) powi j"
  have mpos: "0 < m" using assms(1) by (smt (verit) zero_less_power)
  have p: "(0::rat) < 2 powi j" by (simp add: zero_less_power_int)
  have xpos: "0 < ?x" using mpos p by simp
  have lo': "(of_int (2 ^ 52) :: rat) \<le> of_int m" using assms(1) by (simp only: of_int_le_iff)
  have hi': "(of_int m :: rat) < of_int (2 ^ 53)" using assms(2) by (simp only: of_int_less_iff)
  have "(2::rat) powi (j + 52) = of_int (2 ^ 52) * 2 powi j"
    using powi_52 [of "j + 52"] by simp
  also have "\<dots> \<le> ?x" using lo' p by (intro mult_right_mono) simp_all
  finally have lo: "(2::rat) powi (j + 52) \<le> \<bar>?x\<bar>" using xpos by simp
  have "?x < of_int (2 ^ 53) * 2 powi j"
    using hi' p by (intro mult_strict_right_mono) simp_all
  also have "\<dots> = 2 powi (j + 52 + 1)" using powi_53 [of "j + 52"] by simp
  finally have hi: "\<bar>?x\<bar> < 2 powi (j + 52 + 1)" using xpos by simp
  have b: "binade ?x = j + 52" using lo hi by (rule binade_unique)
  have "?x / 2 powi (binade ?x - 52) = of_int m" by (simp add: b)
  then have "round_half_even (?x / 2 powi (binade ?x - 52)) = m"
    by (simp only: round_half_even_of_int)
  then show ?thesis using xpos by (simp add: fl64_def Let_def b)
qed


lemma fl64_of_int_pos:
  fixes n :: int
  assumes "0 < n" "n < 2 ^ 53"
  shows "fl64 (of_int n) = of_int n"
proof -
  let ?L = "bitlen n"
  from bitlen_bounds [OF assms(1)] have lo: "2 ^ nat (?L - 1) \<le> n" and hi: "n < 2 ^ nat ?L"
    by auto
  have L1: "1 \<le> ?L" using assms(1) by (auto simp: bitlen_alt_def)
  have "(2::int) ^ nat (?L - 1) < 2 ^ 53" using lo assms(2) by linarith
  then have "nat (?L - 1) < 53" using power_strict_increasing_iff [of "2::int" "nat (?L - 1)" 53] by linarith
  then have L53: "?L \<le> 53" by simp
  define k where "k = nat (53 - ?L)"
  define m where "m = n * 2 ^ k"
  have k1: "nat (?L - 1) + k = 52" and k2: "nat ?L + k = 53"
    using L1 L53 by (simp_all add: k_def)
  have "(2::int) ^ 52 = 2 ^ nat (?L - 1) * 2 ^ k" by (simp only: k1 flip: power_add)
  also have "\<dots> \<le> m" unfolding m_def using lo by (intro mult_right_mono) simp_all
  finally have m1: "2 ^ 52 \<le> m" .
  have "m < 2 ^ nat ?L * 2 ^ k" unfolding m_def using hi by (intro mult_strict_right_mono) simp_all
  also have "\<dots> = 2 ^ 53" by (simp only: k2 flip: power_add)
  finally have m2: "m < 2 ^ 53" .
  have "(of_int m :: rat) * 2 powi (- int k) = of_int n * (2 ^ k * 2 powi (- int k))"
    by (simp add: m_def)
  also have "(2::rat) ^ k * 2 powi (- int k) = 1"
    by (simp add: power_int_minus)
  finally have e: "(of_int m :: rat) * 2 powi (- int k) = of_int n" by simp
  show ?thesis using fl64_exact_pos [OF m1 m2, of "- int k"] by (simp only: e)
qed

lemma fl64_of_int:
  fixes n :: int
  assumes "\<bar>n\<bar> < 2 ^ 53"
  shows "fl64 (of_int n) = of_int n"
proof (cases n "0::int" rule: linorder_cases)
  case less
  then have "fl64 (of_int (- n)) = of_int (- n)" using assms by (intro fl64_of_int_pos) simp_all
  then show ?thesis by (simp add: fl64_minus)
next
  case equal
  then show ?thesis by simp
next
  case greater
  then show ?thesis using assms by (intro fl64_of_int_pos) simp_all
qed

lemma fl64_of_nat: "n < 2 ^ 53 \<Longrightarrow> fl64 (of_nat n) = of_nat n"
  using fl64_of_int [of "int n"] by simp

lemma fl64_one [simp]: "fl64 1 = 1"
  using fl64_of_nat [of 1] by simp




subsection \<open>Truncation\<close>

lemma py_int_nonneg: "0 \<le> q \<Longrightarrow> py_int q = \<lfloor>q\<rfloor>"
  by (simp add: py_int_def)

lemma py_int_mono:
  assumes "p \<le> q"
  shows "py_int p \<le> py_int q"
proof -
  consider "q < 0" | "p < 0" "0 \<le> q" | "0 \<le> p" by linarith
  then show ?thesis
  proof cases
    case 1
    with assms have "p < 0" and "\<lfloor>- q\<rfloor> \<le> \<lfloor>- p\<rfloor>" by (simp_all add: floor_mono)
    with 1 show ?thesis by (simp add: py_int_def)
  next
    case 2
    then have "0 \<le> \<lfloor>- p\<rfloor>" and "0 \<le> \<lfloor>q\<rfloor>" by simp_all
    then have "- \<lfloor>- p\<rfloor> \<le> \<lfloor>q\<rfloor>" by linarith
    with 2 show ?thesis by (simp add: py_int_def)
  next
    case 3
    with assms have "0 \<le> q" and "\<lfloor>p\<rfloor> \<le> \<lfloor>q\<rfloor>" by (simp_all add: floor_mono)
    with 3 show ?thesis by (simp add: py_int_def)
  qed
qed

lemma py_int_le: "0 \<le> q \<Longrightarrow> of_int (py_int q) \<le> q"
  by (simp add: py_int_nonneg)

lemma np_unique_set: "set (map fst (np_unique ls)) = set ls"
  by (auto simp: np_unique_def)

lemma np_unique_count: "(c, f) \<in> set (np_unique ls) \<Longrightarrow> f = count_list ls c \<and> c \<in> set ls \<and> 0 < f"
proof -
  assume "(c, f) \<in> set (np_unique ls)"
  then have c: "c \<in> set ls" and f: "f = count_list ls c" by (auto simp: np_unique_def)
  from c have "count_list ls c \<noteq> 0" by (simp add: count_list_0_iff)
  with c f show ?thesis by simp
qed

lemma np_unique_length: "length (np_unique ls) = card (set ls)"
  by (simp add: np_unique_def length_remdups_card_conv)

lemma np_unique_sum: "sum_list (map snd (np_unique ls)) = length ls"
proof -
  have "sum_list (map snd (np_unique ls)) = sum_list (map (count_list ls) (sort (remdups ls)))"
    by (simp add: np_unique_def comp_def)
  also have "\<dots> = sum (count_list ls) (set (sort (remdups ls)))"
    by (rule sum_list_distinct_conv_sum_set) simp
  also have "\<dots> = length ls" by (simp add: sum_count_set)
  finally show ?thesis .
qed

lemma calc_augment_level_rows:
  "row \<in> set (calc_augment_level y sf) \<longleftrightarrow>
     (label row \<in> set (map snd y) \<and>
      frequency row = count_list (map snd y) (label row) \<and>
      scaling_factor row =
        py_int (fl64 (sf * fl64 (fl64 (of_nat (length y) / of_nat (card (set (map snd y))))
                                   / of_nat (frequency row)))) \<and>
      aug_row.more row = ())"
  unfolding calc_augment_level_def Let_def np_unique_sum np_unique_length
  by (cases row) (auto simp: np_unique_def image_iff)

lemma sum_list_bounded_max:
  fixes xs :: "nat list"
  assumes "xs \<noteq> []"
  shows "\<exists>x\<in>set xs. sum_list xs \<le> x * length xs"
proof -
  have b: "(\<forall>x\<in>set ys. x \<le> M) \<Longrightarrow> sum_list ys \<le> M * length ys" for ys :: "nat list" and M
    by (induction ys) auto
  have "Max (set xs) \<in> set xs" using assms by (intro Max_in) simp_all
  moreover have "sum_list xs \<le> Max (set xs) * length xs" by (rule b) simp
  ultimately show ?thesis by blast
qed

text \<open>Overflow: the rounded result reaches \<open>2^1024\<close>.\<close>

lemma binade_zero: "binade 0 = - 2" by code_simp

lemma inf64_iff: "inf64 x \<longleftrightarrow> 2 ^ 1024 \<le> \<bar>fl64 x\<bar>"
proof (cases "fl64 x = 0")
  case True
  then show ?thesis by (simp add: inf64_def binade_zero)
next
  case False
  note B = binade_bounds [OF False]
  show ?thesis
  proof
    assume "inf64 x"
    then have "1024 \<le> binade (fl64 x)" by (simp add: inf64_def)
    then have "(2::rat) powi 1024 \<le> 2 powi binade (fl64 x)"
      by (intro power_int_increasing) simp_all
    with B(1) have "(2::rat) powi 1024 \<le> \<bar>fl64 x\<bar>" by linarith
    moreover have "(2::rat) powi 1024 = 2 ^ 1024"
      using power_int_of_nat [of "2::rat" 1024] by simp
    ultimately show "2 ^ 1024 \<le> \<bar>fl64 x\<bar>" by (simp only:)
  next
    assume a: "2 ^ 1024 \<le> \<bar>fl64 x\<bar>"
    have p: "(2::rat) powi 1024 = 2 ^ 1024"
      using power_int_of_nat [of "2::rat" 1024] by simp
    show "inf64 x"
    proof (rule ccontr)
      assume "\<not> inf64 x"
      then have "binade (fl64 x) + 1 \<le> 1024" by (simp add: inf64_def)
      then have "(2::rat) powi (binade (fl64 x) + 1) \<le> 2 powi 1024"
        by (intro power_int_increasing) simp_all
      with B(2) have "\<bar>fl64 x\<bar> < 2 powi 1024" by linarith
      with a p show False by linarith
    qed
  qed
qed

lemma fl64_2_1024: "fl64 (2 ^ 1024) = 2 ^ 1024"
proof -
  have p: "(2::rat) powi 972 = 2 ^ 972"
    using power_int_of_nat [of "2::rat" 972] by simp
  have "fl64 (of_int (2 ^ 52) * 2 powi 972) = of_int (2 ^ 52) * 2 powi 972"
    by (rule fl64_exact_pos) simp_all
  then have "fl64 (2 ^ 52 * 2 ^ 972) = (2 ^ 52 * 2 ^ 972 :: rat)" by (simp only: p of_int_power of_int_numeral)
  moreover have "(2 ^ 52 * 2 ^ 972 :: rat) = 2 ^ 1024" by (simp only: power_add [symmetric]) simp
  ultimately show ?thesis by (simp only:)
qed

lemma inf64_ge:
  assumes "2 ^ 1024 \<le> x"
  shows "inf64 x"
proof -
  from assms have "fl64 (2 ^ 1024) \<le> fl64 x" by (rule fl64_mono)
  then have "2 ^ 1024 \<le> fl64 x" by (simp only: fl64_2_1024)
  then have "2 ^ 1024 \<le> \<bar>fl64 x\<bar>" by linarith
  then show ?thesis by (simp only: inf64_iff)
qed




section \<open>The class-balance estimator\<close>




text \<open>
  C6, as amended: for a scaling factor that is not negative, every count is non-negative, and
  a class at least as frequent as another never has the larger count. If moreover the
  scaling factor is a float64 number and there are fewer than \<open>2^53\<close> labels, some class
  has a count of at most the scaling factor.
\<close>

theorem calc_augment_level_monotone:
  assumes "0 \<le> sf"
    and "r1 \<in> set (calc_augment_level y sf)"
    and "r2 \<in> set (calc_augment_level y sf)"
  shows "0 \<le> scaling_factor r1 \<and>
         (frequency r1 \<le> frequency r2 \<longrightarrow> scaling_factor r2 \<le> scaling_factor r1) \<and>
         (fl64 sf = sf \<and> length y < 2 ^ 53 \<longrightarrow>
            (\<exists>r\<in>set (calc_augment_level y sf). of_int (scaling_factor r) \<le> sf))"
proof -
  define ls where "ls = map snd y"
  define mean where "mean = fl64 (of_nat (length y) / of_nat (card (set ls)))"
  define cnt where "cnt f = py_int (fl64 (sf * fl64 (mean / of_nat f)))" for f :: nat
  have rows: "row \<in> set (calc_augment_level y sf) \<longleftrightarrow>
      (label row \<in> set ls \<and> frequency row = count_list ls (label row) \<and>
       scaling_factor row = cnt (frequency row) \<and> aug_row.more row = ())" for row
    by (simp only: calc_augment_level_rows ls_def mean_def cnt_def)
  have mean0: "0 \<le> mean" by (simp add: mean_def)
  have arg0: "0 \<le> fl64 (sf * fl64 (mean / of_nat f))" for f :: nat
    using assms(1) mean0 by simp
  have nonneg: "0 \<le> cnt f" for f
    using arg0 [of f] by (simp add: cnt_def py_int_nonneg)
  have anti: "cnt g \<le> cnt f" if "f \<le> g" "0 < f" for f g
  proof -
    have "mean / of_nat g \<le> mean / of_nat f"
      using that mean0 by (intro divide_left_mono) simp_all
    then have "fl64 (mean / of_nat g) \<le> fl64 (mean / of_nat f)" by (rule fl64_mono)
    then have "sf * fl64 (mean / of_nat g) \<le> sf * fl64 (mean / of_nat f)"
      using assms(1) by (rule mult_left_mono)
    then have "fl64 (sf * fl64 (mean / of_nat g)) \<le> fl64 (sf * fl64 (mean / of_nat f))"
      by (rule fl64_mono)
    then show ?thesis unfolding cnt_def by (rule py_int_mono)
  qed
  have f1: "0 < frequency r1"
  proof -
    from assms(2) have "label r1 \<in> set ls" "frequency r1 = count_list ls (label r1)"
      by (simp_all only: rows)
    then show ?thesis using count_list_0_iff [of ls "label r1"] by simp
  qed
  have A: "0 \<le> scaling_factor r1" using assms(2) nonneg by (simp only: rows)
  have B: "frequency r1 \<le> frequency r2 \<longrightarrow> scaling_factor r2 \<le> scaling_factor r1"
    using assms(2,3) anti [OF _ f1] by (simp only: rows) simp
  have Cc: "\<exists>r\<in>set (calc_augment_level y sf). of_int (scaling_factor r) \<le> sf"
    if sf: "fl64 sf = sf" and len: "length y < 2 ^ 53"
  proof -
    let ?T = "np_unique ls"
    have "label r1 \<in> set ls" using assms(2) by (simp only: rows)
    then have ne: "map snd ?T \<noteq> []" using np_unique_set [of ls] by auto
    from sum_list_bounded_max [OF ne] obtain f where
      fT: "f \<in> set (map snd ?T)" and fmax: "sum_list (map snd ?T) \<le> f * length (map snd ?T)"
      by blast
    from fT obtain c where cf: "(c, f) \<in> set ?T" by auto
    from np_unique_count [OF cf] have fc: "f = count_list ls c" and c: "c \<in> set ls" and fpos: "0 < f"
      by simp_all
    have n: "0 < card (set ls)" using c by (auto simp: card_gt_0_iff)
    have "length y \<le> f * card (set ls)"
      using fmax by (simp add: np_unique_sum np_unique_length ls_def)
    then have "(of_nat (length y) :: rat) \<le> of_nat (f * card (set ls))"
      by (simp only: of_nat_le_iff)
    then have "(of_nat (length y) :: rat) / of_nat (card (set ls)) \<le> of_nat f"
      using n by (simp add: field_simps)
    then have "mean \<le> fl64 (of_nat f)" unfolding mean_def by (rule fl64_mono)
    moreover have "f \<le> length y" unfolding fc ls_def
      using count_le_length [of "map snd y" c] by simp
    then have "f < 2 ^ 53" using len by linarith
    ultimately have "mean \<le> of_nat f" by (simp only: fl64_of_nat)
    then have "mean / of_nat f \<le> 1" using fpos by (simp add: field_simps)
    then have "fl64 (mean / of_nat f) \<le> fl64 1" by (rule fl64_mono)
    then have "sf * fl64 (mean / of_nat f) \<le> sf * 1"
      using assms(1) by (intro mult_left_mono) simp_all
    then have "fl64 (sf * fl64 (mean / of_nat f)) \<le> fl64 sf"
      by (intro fl64_mono) simp
    then have "fl64 (sf * fl64 (mean / of_nat f)) \<le> sf" by (simp only: sf)
    moreover have "of_int (cnt f) \<le> fl64 (sf * fl64 (mean / of_nat f))"
      unfolding cnt_def using arg0 [of f] by (rule py_int_le)
    ultimately have le: "of_int (cnt f) \<le> sf" by linarith
    let ?r = "\<lparr>label = c, frequency = f, scaling_factor = cnt f\<rparr>"
    have "?r \<in> set (calc_augment_level y sf)" using c fc by (simp add: rows)
    with le show ?thesis by (intro bexI [of _ ?r]) simp_all
  qed
  from A B Cc show ?thesis by blast
qed

theorem calc_augment_level_monotone_witness:
  "(0::rat) \<le> 5 \<and>
   \<lparr>label = ''b'', frequency = 1, scaling_factor = 10\<rparr> \<in> set (calc_augment_level labels_3_1 5) \<and>
   \<lparr>label = ''a'', frequency = 3, scaling_factor = 3\<rparr> \<in> set (calc_augment_level labels_3_1 5) \<and>
   (1::nat) \<le> 3 \<and> fl64 5 = 5 \<and> length labels_3_1 < 2 ^ 53 \<and>
   (0::int) \<le> 10 \<and> (3::int) \<le> 10 \<and>
   (\<exists>r\<in>set (calc_augment_level labels_3_1 5). of_int (scaling_factor r) \<le> (5::rat))"
proof -
  let ?r1 = "\<lparr>label = ''b'', frequency = 1, scaling_factor = 10\<rparr>"
  let ?r2 = "\<lparr>label = ''a'', frequency = 3, scaling_factor = 3\<rparr>"
  have h1: "(0::rat) \<le> 5" by simp
  have h2: "?r1 \<in> set (calc_augment_level labels_3_1 5)" by code_simp
  have h3: "?r2 \<in> set (calc_augment_level labels_3_1 5)" by code_simp
  have h4: "fl64 5 = 5" by code_simp
  have h5: "length labels_3_1 < 2 ^ 53" by (simp add: labels_3_1_def)
  from calc_augment_level_monotone [OF h1 h2 h3] h1 h2 h3 h4 h5
  show ?thesis by simp
qed

text \<open>
  C6 as stated fails for a negative scaling factor: with one label and the scaling factor
  -5 the only count is -5.
\<close>

theorem calc_augment_level_negative_counterexample:
  "calc_augment_level [(box0, ''a'')] (- 5) = [\<lparr>label = ''a'', frequency = 1, scaling_factor = - 5\<rparr>]"
  by code_simp

section \<open>The sample builder\<close>

lemma first_index_None: "first_index cs l = None \<longleftrightarrow> np_str l \<notin> np_str ` set cs"
  by (induction cs) auto

lemma first_index_Some:
  "first_index cs l = Some i \<Longrightarrow>
     i < length cs \<and> np_str (cs ! i) = np_str l \<and> (\<forall>j<i. np_str (cs ! j) \<noteq> np_str l)"
proof (induction cs arbitrary: i)
  case Nil
  then show ?case by simp
next
  case (Cons c cs)
  show ?case
  proof (cases "np_str c = np_str l")
    case True
    with Cons.prems show ?thesis by simp
  next
    case False
    with Cons.prems obtain k where k: "first_index cs l = Some k" and i: "i = Suc k" by auto
    from Cons.IH [OF k] False i show ?thesis by (auto simp: less_Suc_eq_0_disj)
  qed
qed

lemma out_of_bound_iff:
  "out_of_bound width height ((x1, y1), (x2, y2)) \<longleftrightarrow>
     of_nat width < x1 \<or> of_nat height < y1 \<or> of_nat width < x2 \<or> of_nat height < y2"
  by (auto simp: out_of_bound_def)

lemma index_label_absent:
  "index_label classes l = Inl IndexError \<longleftrightarrow> np_str l \<notin> np_str ` set classes"
  using first_index_None [of classes l] by (auto simp: index_label_def split: option.splits)

lemma index_label_found:
  assumes "index_label classes l = Inr i"
  shows "i < length classes \<and> np_str (classes ! i) = np_str l \<and>
         (\<forall>j<i. np_str (classes ! j) \<noteq> np_str l)"
proof -
  from assms have f: "first_index classes l = Some i"
    by (auto simp: index_label_def split: option.splits)
  from first_index_Some [OF f] show ?thesis .
qed

text \<open>A string that does not end in NUL is read as it is.\<close>

lemma np_str_id: "s = [] \<or> last s \<noteq> CHR 0x00 \<Longrightarrow> np_str s = s"
  by (cases s rule: rev_cases) (auto simp: np_str_def)

text \<open>
  C10, as amended: the lookup of the class index raises \<open>IndexError\<close> exactly when the
  class name equals no line of the categories file up to trailing NUL characters, and
  otherwise yields the first index at which such a line occurs; for names and lines that do
  not end in NUL this is plain membership in the file. An entry whose file exists is
  processed without an exception only if its class name equals a line of the file up to
  trailing NUL characters; if it equals none and the image has been loaded, processing the
  entry ends with \<open>IndexError\<close>.
\<close>

theorem class_lookup:
  "(index_label classes l = Inl IndexError \<longleftrightarrow> np_str l \<notin> np_str ` set classes) \<and>
   (\<forall>i. index_label classes l = Inr i \<longrightarrow>
      i < length classes \<and> np_str (classes ! i) = np_str l \<and>
      (\<forall>j<i. np_str (classes ! j) \<noteq> np_str l)) \<and>
   ((l = [] \<or> last l \<noteq> CHR 0x00) \<and> (\<forall>c\<in>set classes. c = [] \<or> last c \<noteq> CHR 0x00) \<longrightarrow>
      (index_label classes l = Inl IndexError \<longleftrightarrow> l \<notin> set classes)) \<and>
   (isfile E filename \<and> build_sample E C augment_data augment_level (filename, bbox, l) s = Inr s'
      \<longrightarrow> np_str l \<in> np_str ` set (CLASSES C)) \<and>
   (isfile E filename \<and> load_image E C augment_data (multi_scale s) filename = Inr loaded \<and>
    np_str l \<notin> np_str ` set (CLASSES C)
      \<longrightarrow> build_sample E C augment_data augment_level (filename, bbox, l) s = Inl IndexError)"
proof -
  have A: "index_label classes l = Inl IndexError \<longleftrightarrow> np_str l \<notin> np_str ` set classes"
    by (rule index_label_absent)
  have B: "\<forall>i. index_label classes l = Inr i \<longrightarrow>
      i < length classes \<and> np_str (classes ! i) = np_str l \<and>
      (\<forall>j<i. np_str (classes ! j) \<noteq> np_str l)"
    using index_label_found by blast
  have P: "index_label classes l = Inl IndexError \<longleftrightarrow> l \<notin> set classes"
    if h: "(l = [] \<or> last l \<noteq> CHR 0x00) \<and> (\<forall>c\<in>set classes. c = [] \<or> last c \<noteq> CHR 0x00)"
  proof -
    from h have "np_str l = l" by (intro np_str_id) simp
    moreover from h have "np_str ` set classes = set classes"
      by (auto simp: np_str_id image_iff)
    ultimately show ?thesis by (simp only: A)
  qed
  have C1: "np_str l \<in> np_str ` set (CLASSES C)"
    if a: "isfile E filename \<and>
      build_sample E C augment_data augment_level (filename, bbox, l) s = Inr s'"
  proof (rule ccontr)
    assume "np_str l \<notin> np_str ` set (CLASSES C)"
    then have "index_label (CLASSES C) l = Inl IndexError" by (rule index_label_absent [THEN iffD2])
    with a show False
      by (auto simp: build_sample_def Let_def split: sum.splits prod.splits)
  qed
  have D: "build_sample E C augment_data augment_level (filename, bbox, l) s = Inl IndexError"
    if a: "isfile E filename \<and>
      load_image E C augment_data (multi_scale s) filename = Inr loaded \<and>
      np_str l \<notin> np_str ` set (CLASSES C)"
  proof -
    from a have "np_str l \<notin> np_str ` set (CLASSES C)" by simp
    then have "index_label (CLASSES C) l = Inl IndexError" by (rule index_label_absent [THEN iffD2])
    with a show ?thesis
      by (auto simp: build_sample_def Let_def split: sum.splits prod.splits)
  qed
  from A B P C1 D show ?thesis by blast
qed

theorem class_lookup_witness:
  "index_label (CLASSES cfg0) ''b'' = Inr 1 \<and>
   np_str (CLASSES cfg0 ! 1) = np_str ''b'' \<and>
   isfile env0 ''x.jpg'' \<and>
   build_sample env0 cfg0 False [] (''x.jpg'', box0, ''b'') frame0 =
     Inr (frame0\<lparr>X := [(416, 416)],
                 Y := [[fl64 (1 / 4), fl64 (1 / 2), fl64 (1 / 10), fl64 (1 / 5), 1, 0, 1, 0]]\<rparr>) \<and>
   np_str ''b'' \<in> np_str ` set (CLASSES cfg0) \<and>
   load_image env0 cfg0 False (multi_scale frame0) ''x.jpg'' = Inr ((416, 416), 100, 200) \<and>
   np_str ''zebra'' \<notin> np_str ` set (CLASSES cfg0) \<and> ''zebra'' \<notin> set (CLASSES cfg0) \<and>
   index_label (CLASSES cfg0) ''zebra'' = Inl IndexError \<and>
   build_sample env0 cfg0 False [] (''x.jpg'', box0, ''zebra'') frame0 = Inl IndexError"
proof -
  have h1: "index_label (CLASSES cfg0) ''b'' = Inr 1" by code_simp
  have h2: "isfile env0 ''x.jpg''" by code_simp
  have h3: "build_sample env0 cfg0 False [] (''x.jpg'', box0, ''b'') frame0 =
     Inr (frame0\<lparr>X := [(416, 416)],
                 Y := [[fl64 (1 / 4), fl64 (1 / 2), fl64 (1 / 10), fl64 (1 / 5), 1, 0, 1, 0]]\<rparr>)"
    by code_simp
  have h4: "load_image env0 cfg0 False (multi_scale frame0) ''x.jpg'' = Inr ((416, 416), 100, 200)"
    by code_simp
  have h5: "np_str ''zebra'' \<notin> np_str ` set (CLASSES cfg0)" by code_simp
  have h6: "(''zebra'' = [] \<or> last ''zebra'' \<noteq> CHR 0x00) \<and>
    (\<forall>c\<in>set (CLASSES cfg0). c = [] \<or> last c \<noteq> CHR 0x00)"
    by code_simp
  have h7: "''zebra'' \<notin> set (CLASSES cfg0)" by code_simp
  note b = class_lookup [where classes = "CLASSES cfg0" and l = "''b''" and E = env0 and C = cfg0
      and filename = "''x.jpg''" and augment_data = False and augment_level = "[]" and bbox = box0
      and s = frame0]
  note z = class_lookup [where classes = "CLASSES cfg0" and l = "''zebra''" and E = env0 and C = cfg0
      and filename = "''x.jpg''" and augment_data = False and augment_level = "[]" and bbox = box0
      and s = frame0]
  from b h1 have c1: "np_str (CLASSES cfg0 ! 1) = np_str ''b''" by blast
  from b h2 h3 have c2: "np_str ''b'' \<in> np_str ` set (CLASSES cfg0)" by blast
  from z h6 h7 have c3: "index_label (CLASSES cfg0) ''zebra'' = Inl IndexError" by blast
  from z h2 h4 h5
  have c4: "build_sample env0 cfg0 False [] (''x.jpg'', box0, ''zebra'') frame0 = Inl IndexError"
    by blast
  from h1 c1 h2 h3 c2 h4 h5 h7 c3 c4 show ?thesis by (intro conjI)
qed

text \<open>
  C10 as stated fails for a class name that ends in NUL: the name \<open>a\<close> followed by one
  NUL character is not a line of the categories file \<open>a, b, c\<close>, yet the comparison of
  line 109 finds it at index 0 and the entry is processed.
\<close>

theorem class_lookup_nul_counterexample:
  "label_nul \<notin> set (CLASSES cfg0) \<and> index_label (CLASSES cfg0) label_nul = Inr 0 \<and>
   build_sample env0 cfg0 False [] (''x.jpg'', box0, label_nul) frame0 =
     Inr (frame0\<lparr>X := [(416, 416)],
                 Y := [[fl64 (1 / 4), fl64 (1 / 2), fl64 (1 / 10), fl64 (1 / 5), 1, 1, 0, 0]]\<rparr>)"
  by code_simp

lemma same_but_stdout_iff:
  "same_but_stdout s1 s2 \<longleftrightarrow>
     xy s1 = xy s2 \<and> multi_scale s1 = multi_scale s2 \<and> X s1 = X s2 \<and> Y s1 = Y s2 \<and>
     rng s1 = rng s2 \<and> transform_calls s1 = transform_calls s2 \<and> frame.more s1 = frame.more s2"
  by (cases s1, cases s2) (auto simp: same_but_stdout_def)

lemma augment_variants_stdout:
  "same_but_stdout s1 s2 \<Longrightarrow>
   same_but_stdout (augment_variants E n img bbox width height one_hot s1)
                   (augment_variants E n img bbox width height one_hot s2)"
proof (induction n arbitrary: s1 s2)
  case 0
  then show ?case by simp
next
  case (Suc n)
  obtain aug_img aug_box g where
    rt: "random_transform E (rng s2) img (to_opencv_format bbox) = ((aug_img, aug_box), g)"
    by (metis surj_pair)
  from Suc.prems have r: "rng s1 = rng s2" by (simp add: same_but_stdout_iff)
  show ?case
  proof (cases "out_of_bound width height aug_box")
    case True
    have "same_but_stdout
        (s1\<lparr>rng := g, transform_calls := transform_calls s1 @ [(img, to_opencv_format bbox)]\<rparr>)
        (s2\<lparr>rng := g, transform_calls := transform_calls s2 @ [(img, to_opencv_format bbox)]\<rparr>)"
      using Suc.prems by (simp add: same_but_stdout_iff)
    from Suc.IH [OF this] show ?thesis using True by (simp add: r rt)
  next
    case False
    have "same_but_stdout
        (s1\<lparr>rng := g, transform_calls := transform_calls s1 @ [(img, to_opencv_format bbox)],
            X := X s1 @ [preprocess_img E aug_img],
            Y := Y s1 @ [to_relative_size (convert_opencv_to_box aug_box)
                                   (of_nat width, of_nat height) @ [1] @ one_hot]\<rparr>)
        (s2\<lparr>rng := g, transform_calls := transform_calls s2 @ [(img, to_opencv_format bbox)],
            X := X s2 @ [preprocess_img E aug_img],
            Y := Y s2 @ [to_relative_size (convert_opencv_to_box aug_box)
                                   (of_nat width, of_nat height) @ [1] @ one_hot]\<rparr>)"
      using Suc.prems by (simp add: same_but_stdout_iff)
    from Suc.IH [OF this] show ?thesis using False by (simp add: r rt)
  qed
qed

lemma build_sample_stdout:
  assumes "same_but_stdout s1 s2"
  shows "rel_sum (=) same_but_stdout
     (build_sample E C a L entry s1) (build_sample E C a L entry s2)"
proof -
  obtain filename bbox l where e: "entry = (filename, bbox, l)" by (cases entry)
  from assms have f: "multi_scale s1 = multi_scale s2" "X s1 = X s2" "Y s1 = Y s2"
    by (simp_all add: same_but_stdout_iff)
  show ?thesis
  proof (cases "isfile E filename")
    case False
    then show ?thesis using assms by (simp add: e build_sample_def same_but_stdout_iff)
  next
    case True
    show ?thesis
    proof (cases "load_image E C a (multi_scale s2) filename")
      case (Inl err)
      then show ?thesis using True by (simp add: e build_sample_def f)
    next
      case (Inr loaded)
      obtain img height width where l: "loaded = (img, height, width)" by (cases loaded)
      show ?thesis
      proof (cases "index_label (CLASSES C) l")
        case (Inl err)
        then show ?thesis using True Inr by (simp add: e build_sample_def f l)
      next
        case i: (Inr i)
        let ?v = "to_relative_size bbox (of_nat width, of_nat height) @ [1] @ encode_label E i"
        have base: "same_but_stdout
            (s1\<lparr>X := X s1 @ [preprocess_img E img], Y := Y s1 @ [?v]\<rparr>)
            (s2\<lparr>X := X s2 @ [preprocess_img E img], Y := Y s2 @ [?v]\<rparr>)"
          using assms by (simp add: same_but_stdout_iff)
        show ?thesis
        proof (cases a)
          case False
          then show ?thesis using True Inr i base
            by (simp add: e build_sample_def f l Let_def)
        next
          case a: True
          show ?thesis
          proof (cases "aug_level_of L l")
            case (Inl err)
            then show ?thesis using True Inr i a by (simp add: e build_sample_def f l Let_def)
          next
            case lvl: (Inr aug_level)
            from augment_variants_stdout [OF base, of E "nat aug_level" img bbox width height "encode_label E i"]
            show ?thesis using True Inr i a lvl
              by (simp add: e build_sample_def f l Let_def)
          qed
        qed
      qed
    qed
  qed
qed

lemma build_slice_stdout:
  assumes "same_but_stdout s1 s2"
  shows "rel_sum (=) same_but_stdout
     (build_slice E C a L entries s1) (build_slice E C a L entries s2)"
  using assms
proof (induction entries arbitrary: s1 s2)
  case Nil
  then show ?case by simp
next
  case (Cons entry entries)
  from build_sample_stdout [OF Cons.prems, of E C a L entry]
  show ?case
  proof (cases "build_sample E C a L entry s1"; cases "build_sample E C a L entry s2")
    fix t1 t2
    assume b: "build_sample E C a L entry s1 = Inr t1" "build_sample E C a L entry s2 = Inr t2"
      and "rel_sum (=) same_but_stdout (build_sample E C a L entry s1) (build_sample E C a L entry s2)"
    then have "same_but_stdout t1 t2" by simp
    from Cons.IH [OF this] show ?thesis by (simp add: b)
  qed simp_all
qed

lemma build_slice_append:
  "build_slice E C a L (pre @ post) s =
     (case build_slice E C a L pre s of Inl e \<Rightarrow> Inl e | Inr s1 \<Rightarrow> build_slice E C a L post s1)"
  by (induction pre arbitrary: s) (simp_all split: sum.splits)

text \<open>
  C8: an entry whose path is not an existing file only adds the line \<open>Image Not Found\<close> to
  the output and raises nothing; the loop goes on with the rest of the slice; and the
  result of the slice (the exception, or the frame but for the printed output: the samples
  \<open>X\<close> and \<open>Y\<close>, the random state, the scale) is the result of the slice without that
  entry.
\<close>

theorem missing_file_skipped:
  assumes "\<not> isfile E filename"
  shows "build_sample E C a L (filename, bbox, l) s =
           Inr (s\<lparr>stdout := stdout s @ [''Image Not Found'']\<rparr>) \<and>
         build_slice E C a L (pre @ (filename, bbox, l) # post) s =
           (case build_slice E C a L pre s of
              Inl e \<Rightarrow> Inl e
            | Inr s1 \<Rightarrow> build_slice E C a L post (s1\<lparr>stdout := stdout s1 @ [''Image Not Found'']\<rparr>)) \<and>
         rel_sum (=) same_but_stdout
           (build_slice E C a L (pre @ (filename, bbox, l) # post) s)
           (build_slice E C a L (pre @ post) s)"
proof -
  have one: "build_sample E C a L (filename, bbox, l) t =
           Inr (t\<lparr>stdout := stdout t @ [''Image Not Found'']\<rparr>)" for t
    using assms by (simp add: build_sample_def)
  have two: "build_slice E C a L (pre @ (filename, bbox, l) # post) s =
           (case build_slice E C a L pre s of
              Inl e \<Rightarrow> Inl e
            | Inr s1 \<Rightarrow> build_slice E C a L post (s1\<lparr>stdout := stdout s1 @ [''Image Not Found'']\<rparr>))"
    by (simp add: build_slice_append one split: sum.splits)
  have three: "rel_sum (=) same_but_stdout
           (build_slice E C a L (pre @ (filename, bbox, l) # post) s)
           (build_slice E C a L (pre @ post) s)"
  proof (cases "build_slice E C a L pre s")
    case (Inl e)
    then show ?thesis by (simp add: build_slice_append one)
  next
    case (Inr s1)
    have "rel_sum (=) same_but_stdout
       (build_slice E C a L post (s1\<lparr>stdout := stdout s1 @ [''Image Not Found'']\<rparr>))
       (build_slice E C a L post s1)"
      by (rule build_slice_stdout) (simp add: same_but_stdout_iff)
    with Inr show ?thesis by (simp add: build_slice_append one)
  qed
  from one two three show ?thesis by blast
qed

theorem missing_file_skipped_witness:
  "\<not> isfile env0 ''missing.jpg'' \<and>
   build_sample env0 cfg0 True (calc_augment_level labels_3_1 1) (''missing.jpg'', box0, ''b'') frame0 =
     Inr (frame0\<lparr>stdout := stdout frame0 @ [''Image Not Found'']\<rparr>) \<and>
   rel_sum (=) same_but_stdout
     (build_slice env0 cfg0 True (calc_augment_level labels_3_1 1)
        ([(''x.jpg'', box0, ''a'')] @ (''missing.jpg'', box0, ''b'') # [(''y.jpg'', box0, ''b'')]) frame0)
     (build_slice env0 cfg0 True (calc_augment_level labels_3_1 1)
        ([(''x.jpg'', box0, ''a'')] @ [(''y.jpg'', box0, ''b'')]) frame0)"
proof -
  have h: "\<not> isfile env0 ''missing.jpg''" by code_simp
  note t = missing_file_skipped [OF h, where C = cfg0 and a = True
      and L = "calc_augment_level labels_3_1 1" and bbox = box0 and l = "''b''" and s = frame0
      and pre = "[(''x.jpg'', box0, ''a'')]" and post = "[(''y.jpg'', box0, ''b'')]"]
  show ?thesis
    by (intro conjI) (rule h, rule t [THEN conjunct1], rule t [THEN conjunct2, THEN conjunct2])
qed


text \<open>
  C5: with augmentation enabled, the image that reaches the augmentation transform is not
  the image at its original scale. Lines 97 and 103 assign the resized image to \<^verbatim>\<open>img\<close>
  before line 122 hands \<^verbatim>\<open>img\<close> to the transform, next to the box in the pixels of the
  image as it was read, and lines 125 to 132 test and divide the returned box by the width
  and the height that the image had when it was read. An image read with height 100 and
  width 200 reaches the transform with height and width 416, with the box of corners
  \<open>(40, 40)\<close> and \<open>(60, 60)\<close> in the pixels of the 100 by 200 image.
\<close>

theorem augmentation_image_resized:
  "map_sum id (\<lambda>s. map (\<lambda>(img, cs). (shape env0 img, cs)) (transform_calls s))
     (build_sample env0 cfg0 True row_b (''x.jpg'', box0, ''b'') frame0) =
       Inr [((416, 416), ((40, 40), (60, 60)))] \<and>
   map_option (\<lambda>raw. shape env0 (cvtColor env0 raw)) (imread env0 ''x.jpg'') = Some (100, 200)"
  by code_simp

text \<open>
  C4: the test of lines 125 to 127 compares the corners with the width and the height only.
  A variant whose box has the corners \<open>(-20, -20)\<close> and \<open>(0, 0)\<close> in an image of width 200
  and height 100 lies outside \<open>[0, width] \<times> [0, height]\<close>, is not skipped, and is appended
  with a negative centroid.
\<close>

theorem out_of_bound_negative_corner:
  "random_transform env0 0 (416, 416) (to_opencv_format box0) =
     (((416, 416), ((- 20, - 20), (0, 0))), 1) \<and>
   out_of_bound 200 100 ((- 20, - 20), (0, 0)) = False \<and>
   Y (augment_variants env0 1 (416, 416) box0 200 100 [0, 1, 0] frame0) =
     [[fl64 (- 10 / 200), fl64 (- 10 / 100), fl64 (20 / 200), fl64 (20 / 100), 1, 0, 1, 0]]"
  by code_simp

section \<open>The grid encoder\<close>

lemma py_int_of_nat [simp]: "py_int (of_nat n) = int n"
  by (simp add: py_int_def)

lemma length_np_zeros [simp]: "length (np_zeros rows cols anchors entries) = rows"
  by (simp add: np_zeros_def)

lemma nth_np_zeros:
  "i < rows \<Longrightarrow> np_zeros rows cols anchors entries ! i =
     replicate cols (replicate anchors (replicate entries 0))"
  by (simp add: np_zeros_def)

lemma np_index_Inr: "np_index n i = Inr k \<Longrightarrow> k < n"
  by (auto simp: np_index_def split: if_splits)

lemma np_index_nonneg: "0 \<le> i \<Longrightarrow> i < int n \<Longrightarrow> np_index n i = Inr (nat i)"
  by (simp add: np_index_def)

text \<open>What a successful write leaves behind.\<close>

lemma write_cell_Inr:
  assumes "write_cell C lab (np_zeros rows cols (N_ANCHORS C) entries) c r = Inr g"
  shows "\<exists>ci ri cls. np_index rows c = Inr ci \<and> np_index cols r = Inr ri \<and>
           ci < rows \<and> ri < cols \<and> 0 < N_ANCHORS C \<and> length (take 4 lab) = 4 \<and>
           broadcast (N_CLASSES C) (drop 5 lab) = Some cls \<and>
           g = (np_zeros rows cols (N_ANCHORS C) entries)
                 [ci := (np_zeros rows cols (N_ANCHORS C) entries ! ci)
                    [ri := replicate (N_ANCHORS C) (take 4 lab @ [1] @ cls)]]"
proof -
  let ?Z = "np_zeros rows cols (N_ANCHORS C) entries"
  from assms obtain ci where ci: "np_index rows c = Inr ci"
    by (auto simp: write_cell_def split: sum.splits)
  then have ci_lt: "ci < rows" by (rule np_index_Inr)
  then have len: "length (?Z ! ci) = cols" by (simp add: nth_np_zeros)
  from assms ci obtain ri where ri: "np_index cols r = Inr ri"
    by (auto simp: write_cell_def len split: sum.splits)
  then have ri_lt: "ri < cols" by (rule np_index_Inr)
  from assms ci ri have a: "0 < N_ANCHORS C" and l4: "length (take 4 lab) = 4"
    by (auto simp: write_cell_def len split: if_splits)
  from assms ci ri a l4 obtain cls where
    cls: "broadcast (N_CLASSES C) (drop 5 lab) = Some cls"
    and g: "g = ?Z[ci := (?Z ! ci)[ri := replicate (N_ANCHORS C) (take 4 lab @ [1] @ cls)]]"
    by (auto simp: write_cell_def len split: option.splits if_splits)
  from ci ri ci_lt ri_lt a l4 cls g show ?thesis by blast
qed

lemma broadcast_length: "broadcast n v = Some cls \<Longrightarrow> length cls = n"
  by (auto simp: broadcast_def split: if_splits)

lemma broadcast_same: "length v = n \<Longrightarrow> broadcast n v = Some v"
  by (simp add: broadcast_def)

lemma map_err_Inr:
  "map_err f xs = Inr ys \<Longrightarrow> length ys = length xs \<and> (\<forall>i<length xs. f (xs ! i) = Inr (ys ! i))"
proof (induction xs arbitrary: ys)
  case Nil
  then show ?case by simp
next
  case (Cons a as)
  from Cons.prems obtain b bs where fa: "f a = Inr b" and m: "map_err f as = Inr bs"
    and ys: "ys = b # bs"
    by (auto split: sum.splits)
  from Cons.IH [OF m] fa ys show ?case by (auto simp: nth_Cons split: nat.splits)
qed

lemma encode_batch_Inr:
  assumes "encode_batch C batch_size grid_w grid_h labels = Inr y_batch" and "b < batch_size"
  shows "length y_batch = batch_size \<and> b < length labels \<and>
         encode_sample C grid_w grid_h (labels ! b) = Inr (y_batch ! b)"
proof -
  let ?f = "\<lambda>b. if b < length labels then encode_sample C grid_w grid_h (labels ! b)
                         else Inl IndexError"
  from assms(1) have m: "map_err ?f [0..<batch_size] = Inr y_batch"
    by (auto simp: encode_batch_def split: if_splits)
  from map_err_Inr [OF m] have len: "length y_batch = batch_size"
    and all: "\<forall>i<length [0..<batch_size]. ?f ([0..<batch_size] ! i) = Inr (y_batch ! i)"
    by simp_all
  have nb: "[0..<batch_size] ! b = b" using assms(2) by simp
  from all assms(2) have "?f ([0..<batch_size] ! b) = Inr (y_batch ! b)" by simp
  then have fb: "?f b = Inr (y_batch ! b)" by (simp only: nb)
  have bl: "b < length labels"
  proof (rule ccontr)
    assume "\<not> b < length labels"
    with fb show False by simp
  qed
  with len fb show ?thesis by simp
qed

lemma encode_sample_Inr:
  assumes "encode_sample C grid_w grid_h lab = Inr g"
  shows "\<exists>ci ri v.
     (let rows = nat (py_int grid_h); cols = nat (py_int grid_w);
          guard = (of_int \<lfloor>fl64 (lab ! 0 * grid_w)\<rfloor> < grid_w \<and>
                   of_int \<lfloor>fl64 (lab ! 1 * grid_h)\<rfloor> < grid_h)
      in length g = rows \<and>
         (\<forall>i<rows. length (g ! i) = cols \<and>
            (\<forall>j<cols. g ! i ! j =
               (if guard \<and> i = ci \<and> j = ri then replicate (N_ANCHORS C) v
                else replicate (N_ANCHORS C) (replicate (5 + N_CLASSES C) 0)))) \<and>
         (guard \<longrightarrow> ci < rows \<and> ri < cols \<and> 0 < N_ANCHORS C \<and>
            np_index rows \<lfloor>fl64 (lab ! 1 * grid_h)\<rfloor> = Inr ci \<and>
            np_index cols \<lfloor>fl64 (lab ! 0 * grid_w)\<rfloor> = Inr ri \<and>
            length v = 5 + N_CLASSES C \<and> take 4 v = take 4 lab \<and> v ! 4 = 1 \<and>
            broadcast (N_CLASSES C) (drop 5 lab) = Some (drop 5 v) \<and>
            replicate (N_ANCHORS C) v \<noteq>
              replicate (N_ANCHORS C) (replicate (5 + N_CLASSES C) 0)))"
proof -
  define rows where "rows = nat (py_int grid_h)"
  define cols where "cols = nat (py_int grid_w)"
  define r where "r = \<lfloor>fl64 (lab ! 0 * grid_w)\<rfloor>"
  define c where "c = \<lfloor>fl64 (lab ! 1 * grid_h)\<rfloor>"
  define guard where "guard \<longleftrightarrow> of_int r < grid_w \<and> of_int c < grid_h"
  let ?Z = "np_zeros rows cols (N_ANCHORS C) (5 + N_CLASSES C)"
  let ?zc = "replicate (N_ANCHORS C) (replicate (5 + N_CLASSES C) (0::rat))"
  have Z: "i < rows \<Longrightarrow> ?Z ! i = replicate cols ?zc" for i by (rule nth_np_zeros)
  from assms have l2: "\<not> length lab < 2"
    and ni: "\<not> (inf64 (lab ! 0 * grid_w) \<or> inf64 (lab ! 1 * grid_h))"
    by (auto simp: encode_sample_def split: if_splits)
  have "encode_sample C grid_w grid_h lab = (if guard then write_cell C lab ?Z c r else Inr ?Z)"
    unfolding encode_sample_def Let_def rows_def cols_def r_def c_def guard_def
    using l2 ni by (simp only: if_False)
  with assms have es: "(if guard then write_cell C lab ?Z c r else Inr ?Z) = Inr g" by simp
  show ?thesis
  proof (cases guard)
    case False
    with es have g: "g = ?Z" by simp
    have "length g = rows \<and>
         (\<forall>i<rows. length (g ! i) = cols \<and>
            (\<forall>j<cols. g ! i ! j =
               (if guard \<and> i = 0 \<and> j = 0 then replicate (N_ANCHORS C) []
                else ?zc))) \<and>
         (guard \<longrightarrow> 0 < rows \<and> 0 < cols \<and> 0 < N_ANCHORS C \<and>
            np_index rows c = Inr 0 \<and> np_index cols r = Inr 0 \<and>
            length ([]::rat list) = 5 + N_CLASSES C \<and> take 4 [] = take 4 lab \<and> [] ! 4 = (1::rat) \<and>
            broadcast (N_CLASSES C) (drop 5 lab) = Some (drop 5 []) \<and>
            replicate (N_ANCHORS C) [] \<noteq> ?zc)"
      using False by (simp add: g Z)
    then show ?thesis
      unfolding Let_def rows_def [symmetric] cols_def [symmetric] r_def [symmetric]
        c_def [symmetric] guard_def [symmetric]
      by (intro exI [of _ 0] exI [of _ "[]"])
  next
    case True
    with es have "write_cell C lab ?Z c r = Inr g" by simp
    from write_cell_Inr [OF this] obtain ci ri cls where
      ci: "np_index rows c = Inr ci" and ri: "np_index cols r = Inr ri"
      and lt: "ci < rows" "ri < cols" and a: "0 < N_ANCHORS C"
      and l4: "length (take 4 lab) = 4"
      and cls: "broadcast (N_CLASSES C) (drop 5 lab) = Some cls"
      and g: "g = ?Z[ci := (?Z ! ci)[ri := replicate (N_ANCHORS C) (take 4 lab @ [1] @ cls)]]"
      by blast
    let ?v = "take 4 lab @ [1] @ cls"
    have lc: "length cls = N_CLASSES C" using cls by (rule broadcast_length)
    have v: "length ?v = 5 + N_CLASSES C" "take 4 ?v = take 4 lab" "?v ! 4 = 1" "drop 5 ?v = cls"
      using l4 lc by (simp_all add: nth_append)
    have nz: "replicate (N_ANCHORS C) ?v \<noteq> ?zc"
    proof
      assume "replicate (N_ANCHORS C) ?v = ?zc"
      then have "?v = replicate (5 + N_CLASSES C) 0"
        using a by (simp add: replicate_eq_replicate)
      then have "?v ! 4 = replicate (5 + N_CLASSES C) (0::rat) ! 4" by simp
      with v(3) show False by simp
    qed
    have cells: "g ! i ! j = (if guard \<and> i = ci \<and> j = ri then replicate (N_ANCHORS C) ?v else ?zc)"
      and lens: "length (g ! i) = cols"
      if "i < rows" "j < cols" for i j
      using that True lt by (simp_all add: g Z nth_list_update)
    have lens': "length (g ! i) = cols" if "i < rows" for i
      using that lt by (simp add: g Z nth_list_update)
    have "length g = rows \<and>
         (\<forall>i<rows. length (g ! i) = cols \<and>
            (\<forall>j<cols. g ! i ! j =
               (if guard \<and> i = ci \<and> j = ri then replicate (N_ANCHORS C) ?v
                else ?zc))) \<and>
         (guard \<longrightarrow> ci < rows \<and> ri < cols \<and> 0 < N_ANCHORS C \<and>
            np_index rows c = Inr ci \<and> np_index cols r = Inr ri \<and>
            length ?v = 5 + N_CLASSES C \<and> take 4 ?v = take 4 lab \<and> ?v ! 4 = 1 \<and>
            broadcast (N_CLASSES C) (drop 5 lab) = Some (drop 5 ?v) \<and>
            replicate (N_ANCHORS C) ?v \<noteq> ?zc)"
      using cells lens' lt a ci ri v cls nz by (simp add: g)
    then show ?thesis
      unfolding Let_def rows_def [symmetric] cols_def [symmetric] r_def [symmetric]
        c_def [symmetric] guard_def [symmetric]
      by (intro exI [of _ ci] exI [of _ ri] exI [of _ ?v])
  qed
qed

text \<open>
  C2: in every batch of label grids that the encoder produces, the grid of a sample has
  \<open>int(grid_h)\<close> rows of \<open>int(grid_w)\<close> cells. If the guard \<open>r < grid_w and c < grid_h\<close>
  fails, every cell is zero. If it holds, one cell, at the row and the column that NumPy
  reads from \<open>c\<close> and \<open>r\<close>, holds in each of its \<open>N_ANCHORS\<close> (at least one) slots the
  same vector: the four box entries of the label vector, the objectness 1, and the class
  part of the label vector as broadcast into \<open>N_CLASSES\<close> entries; every other cell is
  zero.
\<close>

theorem encode_batch_single_cell:
  assumes "encode_batch C batch_size grid_w grid_h labels = Inr y_batch"
    and "b < batch_size"
  shows "length y_batch = batch_size \<and> b < length labels \<and>
    (\<exists>ci ri v.
     (let lab = labels ! b; g = y_batch ! b;
          rows = nat (py_int grid_h); cols = nat (py_int grid_w);
          guard = (of_int \<lfloor>fl64 (lab ! 0 * grid_w)\<rfloor> < grid_w \<and>
                   of_int \<lfloor>fl64 (lab ! 1 * grid_h)\<rfloor> < grid_h)
      in length g = rows \<and>
         (\<forall>i<rows. length (g ! i) = cols \<and>
            (\<forall>j<cols. g ! i ! j =
               (if guard \<and> i = ci \<and> j = ri then replicate (N_ANCHORS C) v
                else replicate (N_ANCHORS C) (replicate (5 + N_CLASSES C) 0)))) \<and>
         (guard \<longrightarrow> ci < rows \<and> ri < cols \<and> 0 < N_ANCHORS C \<and>
            np_index rows \<lfloor>fl64 (lab ! 1 * grid_h)\<rfloor> = Inr ci \<and>
            np_index cols \<lfloor>fl64 (lab ! 0 * grid_w)\<rfloor> = Inr ri \<and>
            length v = 5 + N_CLASSES C \<and> take 4 v = take 4 lab \<and> v ! 4 = 1 \<and>
            broadcast (N_CLASSES C) (drop 5 lab) = Some (drop 5 v) \<and>
            replicate (N_ANCHORS C) v \<noteq>
              replicate (N_ANCHORS C) (replicate (5 + N_CLASSES C) 0))))"
proof -
  from encode_batch_Inr [OF assms] have len: "length y_batch = batch_size"
    and bl: "b < length labels"
    and es: "encode_sample C grid_w grid_h (labels ! b) = Inr (y_batch ! b)"
    by simp_all
  from encode_sample_Inr [OF es] len bl show ?thesis by (simp only: Let_def)
qed

theorem encode_batch_single_cell_witness:
  "encode_batch cfg0 2 13 13 labels0 = Inr y_batch0 \<and> (0::nat) < 2 \<and>
   length y_batch0 = 2 \<and> 0 < length labels0 \<and>
   (\<exists>ci ri v.
     (let lab = labels0 ! 0; g = y_batch0 ! 0;
          rows = nat (py_int 13); cols = nat (py_int 13);
          guard = (of_int \<lfloor>fl64 (lab ! 0 * 13)\<rfloor> < (13::rat) \<and>
                   of_int \<lfloor>fl64 (lab ! 1 * 13)\<rfloor> < (13::rat))
      in length g = rows \<and>
         (\<forall>i<rows. length (g ! i) = cols \<and>
            (\<forall>j<cols. g ! i ! j =
               (if guard \<and> i = ci \<and> j = ri then replicate (N_ANCHORS cfg0) v
                else replicate (N_ANCHORS cfg0) (replicate (5 + N_CLASSES cfg0) 0)))) \<and>
         (guard \<longrightarrow> ci < rows \<and> ri < cols \<and> 0 < N_ANCHORS cfg0 \<and>
            np_index rows \<lfloor>fl64 (lab ! 1 * 13)\<rfloor> = Inr ci \<and>
            np_index cols \<lfloor>fl64 (lab ! 0 * 13)\<rfloor> = Inr ri \<and>
            length v = 5 + N_CLASSES cfg0 \<and> take 4 v = take 4 lab \<and> v ! 4 = 1 \<and>
            broadcast (N_CLASSES cfg0) (drop 5 lab) = Some (drop 5 v) \<and>
            replicate (N_ANCHORS cfg0) v \<noteq>
              replicate (N_ANCHORS cfg0) (replicate (5 + N_CLASSES cfg0) 0)))) \<and>
   (of_int \<lfloor>fl64 (labels0 ! 0 ! 0 * 13)\<rfloor> < (13::rat) \<and>
    of_int \<lfloor>fl64 (labels0 ! 0 ! 1 * 13)\<rfloor> < (13::rat))"
proof -
  have h1: "encode_batch cfg0 2 13 13 labels0 = Inr y_batch0" by code_simp
  have h2: "(0::nat) < 2" by simp
  have guard: "of_int \<lfloor>fl64 (labels0 ! 0 ! 0 * 13)\<rfloor> < (13::rat) \<and>
    of_int \<lfloor>fl64 (labels0 ! 0 ! 1 * 13)\<rfloor> < (13::rat)"
    by code_simp
  note t = encode_batch_single_cell [OF h1 h2]
  show ?thesis
    by (intro conjI) (rule h1, rule h2, rule t [THEN conjunct1],
      rule t [THEN conjunct2, THEN conjunct1], rule t [THEN conjunct2, THEN conjunct2],
      rule guard [THEN conjunct1], rule guard [THEN conjunct2])
qed

text \<open>
  C1, as amended: for a grid of \<open>rows\<close> by \<open>cols\<close> cells (whole numbers), at least one
  anchor, and a label vector of \<open>5 + N_CLASSES\<close> entries whose centroid coordinates are
  not negative and whose products with the grid size do not overflow float64, the encoder
  computes the column \<open>r = floor(xc * grid_w)\<close> and the row
  \<open>c = floor(yc * grid_h)\<close> and returns the zero grid with the cell at row \<open>c\<close> and column
  \<open>r\<close> populated if \<open>r < grid_w\<close> and \<open>c < grid_h\<close>, and the zero grid otherwise. A
  centroid at \<open>(1.0, 1.0)\<close> is dropped on every such grid (of fewer than \<open>2^53\<close> cells a
  side), and a centroid at \<open>(0.999999, 0.999999)\<close> on a 13 by 13 grid populates the cell
  at row 12 and column 12.
\<close>

theorem encode_sample_cell:
  assumes "0 < N_ANCHORS C"
    and "length lab = 5 + N_CLASSES C"
    and "0 \<le> lab ! 0" and "0 \<le> lab ! 1"
    and "\<not> inf64 (lab ! 0 * of_nat cols)" and "\<not> inf64 (lab ! 1 * of_nat rows)"
  shows "encode_sample C (of_nat cols) (of_nat rows) lab =
           Inr (let r = nat \<lfloor>fl64 (lab ! 0 * of_nat cols)\<rfloor>;
                    c = nat \<lfloor>fl64 (lab ! 1 * of_nat rows)\<rfloor>;
                    zeros = np_zeros rows cols (N_ANCHORS C) (5 + N_CLASSES C)
                in if r < cols \<and> c < rows
                   then zeros[c := (zeros ! c)[r := replicate (N_ANCHORS C)
                                                      (take 4 lab @ [1] @ drop 5 lab)]]
                   else zeros) \<and>
         (lab ! 0 = 1 \<and> lab ! 1 = 1 \<and> cols < 2 ^ 53 \<and> rows < 2 ^ 53 \<longrightarrow>
            encode_sample C (of_nat cols) (of_nat rows) lab =
              Inr (np_zeros rows cols (N_ANCHORS C) (5 + N_CLASSES C))) \<and>
         encode_sample cfg0 13 13 lab_corner =
           Inr ((np_zeros 13 13 2 8)[12 := (np_zeros 13 13 2 8 ! 12)[12 := replicate 2 lab_corner]])"
proof -
  define r where "r = \<lfloor>fl64 (lab ! 0 * of_nat cols)\<rfloor>"
  define c where "c = \<lfloor>fl64 (lab ! 1 * of_nat rows)\<rfloor>"
  let ?Z = "np_zeros rows cols (N_ANCHORS C) (5 + N_CLASSES C)"
  let ?cell = "replicate (N_ANCHORS C) (take 4 lab @ [1] @ drop 5 lab)"
  have r0: "0 \<le> r" and c0: "0 \<le> c"
    using assms(3,4) by (simp_all add: r_def c_def)
  have l2: "\<not> length lab < 2" using assms(2) by simp
  have ni: "\<not> (inf64 (lab ! 0 * of_nat cols) \<or> inf64 (lab ! 1 * of_nat rows))"
    using assms(5,6) by simp
  have gr: "(of_int r :: rat) < of_nat cols \<longleftrightarrow> nat r < cols"
  proof -
    have "(of_int r :: rat) < of_nat cols \<longleftrightarrow> (of_int r :: rat) < of_int (int cols)" by simp
    also have "\<dots> \<longleftrightarrow> r < int cols" by (simp only: of_int_less_iff)
    also have "\<dots> \<longleftrightarrow> nat r < cols" using r0 by linarith
    finally show ?thesis .
  qed
  have gc: "(of_int c :: rat) < of_nat rows \<longleftrightarrow> nat c < rows"
  proof -
    have "(of_int c :: rat) < of_nat rows \<longleftrightarrow> (of_int c :: rat) < of_int (int rows)" by simp
    also have "\<dots> \<longleftrightarrow> c < int rows" by (simp only: of_int_less_iff)
    also have "\<dots> \<longleftrightarrow> nat c < rows" using c0 by linarith
    finally show ?thesis .
  qed
  have unfold: "encode_sample C (of_nat cols) (of_nat rows) lab =
      (if nat r < cols \<and> nat c < rows then write_cell C lab ?Z c r else Inr ?Z)"
    unfolding encode_sample_def Let_def r_def [symmetric] c_def [symmetric]
    using l2 ni by (simp only: if_False gr gc py_int_of_nat nat_int)
  have wc: "write_cell C lab ?Z c r = Inr (?Z[nat c := (?Z ! nat c)[nat r := ?cell]])"
    if "nat r < cols" "nat c < rows"
  proof -
    have ic: "np_index rows c = Inr (nat c)"
      using that c0 by (intro np_index_nonneg) simp_all
    have ir: "np_index cols r = Inr (nat r)"
      using that r0 by (intro np_index_nonneg) simp_all
    have bc: "broadcast (N_CLASSES C) (drop 5 lab) = Some (drop 5 lab)"
      using assms(2) by (intro broadcast_same) simp
    show ?thesis
      using assms(1,2) that by (simp add: write_cell_def ic ir bc nth_np_zeros)
  qed
  have A: "encode_sample C (of_nat cols) (of_nat rows) lab =
           Inr (let r = nat \<lfloor>fl64 (lab ! 0 * of_nat cols)\<rfloor>;
                    c = nat \<lfloor>fl64 (lab ! 1 * of_nat rows)\<rfloor>;
                    zeros = np_zeros rows cols (N_ANCHORS C) (5 + N_CLASSES C)
                in if r < cols \<and> c < rows
                   then zeros[c := (zeros ! c)[r := replicate (N_ANCHORS C)
                                                      (take 4 lab @ [1] @ drop 5 lab)]]
                   else zeros)"
    unfolding Let_def r_def [symmetric] c_def [symmetric] unfold
    using wc by simp
  have B: "encode_sample C (of_nat cols) (of_nat rows) lab = Inr ?Z"
    if h: "lab ! 0 = 1 \<and> lab ! 1 = 1 \<and> cols < 2 ^ 53 \<and> rows < 2 ^ 53"
  proof -
    from h have "fl64 (lab ! 0 * of_nat cols) = of_nat cols"
      by (simp add: fl64_of_nat)
    then have "r = int cols" by (simp add: r_def)
    then have "\<not> nat r < cols" by simp
    then show ?thesis by (simp add: unfold)
  qed
  have Cc: "encode_sample cfg0 13 13 lab_corner =
           Inr ((np_zeros 13 13 2 8)[12 := (np_zeros 13 13 2 8 ! 12)[12 := replicate 2 lab_corner]])"
    by code_simp
  from A B Cc show ?thesis by blast
qed

theorem encode_sample_cell_witness:
  "0 < N_ANCHORS cfg0 \<and> length lab_one = 5 + N_CLASSES cfg0 \<and>
   0 \<le> lab_one ! 0 \<and> 0 \<le> lab_one ! 1 \<and>
   \<not> inf64 (lab_one ! 0 * of_nat 13) \<and> \<not> inf64 (lab_one ! 1 * of_nat 13) \<and>
   lab_one ! 0 = 1 \<and> lab_one ! 1 = 1 \<and> (13::nat) < 2 ^ 53 \<and>
   encode_sample cfg0 (of_nat 13) (of_nat 13) lab_one =
     Inr (np_zeros 13 13 (N_ANCHORS cfg0) (5 + N_CLASSES cfg0))"
proof -
  have h1: "0 < N_ANCHORS cfg0" by code_simp
  have h2: "length lab_one = 5 + N_CLASSES cfg0" by code_simp
  have h3: "0 \<le> lab_one ! 0" by code_simp
  have h4: "0 \<le> lab_one ! 1" by code_simp
  have h6: "\<not> inf64 (lab_one ! 0 * of_nat 13)" by code_simp
  have h7: "\<not> inf64 (lab_one ! 1 * of_nat 13)" by code_simp
  have h5: "lab_one ! 0 = 1 \<and> lab_one ! 1 = 1 \<and> (13::nat) < 2 ^ 53 \<and> (13::nat) < 2 ^ 53"
    by (simp add: lab_one_def)
  from encode_sample_cell [OF h1 h2 h3 h4 h6 h7] h5
  have c: "encode_sample cfg0 (of_nat 13) (of_nat 13) lab_one =
     Inr (np_zeros 13 13 (N_ANCHORS cfg0) (5 + N_CLASSES cfg0))"
    by blast
  from h5 have h5a: "lab_one ! 0 = 1" and h5b: "lab_one ! 1 = 1" and h5c: "(13::nat) < 2 ^ 53"
    by simp_all
  show ?thesis
    by (intro conjI) (rule h1, rule h2, rule h3, rule h4, rule h6, rule h7, rule h5a, rule h5b,
      rule h5c, rule c)
qed

text \<open>
  C1 as stated fails where a centroid coordinate is negative, the grid size is not a
  whole number, or a product overflows. For the centroid \<open>(-2.0, 0.5)\<close> on a 13 by 13
  grid, \<open>r = -26\<close> and \<open>c = 6\<close> pass the guard and the write raises \<open>IndexError\<close>. For
  the centroid \<open>(-0.1, 0.5)\<close>, \<open>r = -2\<close> passes the guard and the write goes to
  column 11. For the centroid \<open>(1.0, 1.0)\<close> and the grid size 12.5, \<open>r = c = 12\<close> pass
  the guard and the write into the 12 by 12 grid raises \<open>IndexError\<close>. For the centroid
  \<open>(2^1023, 0.5)\<close> on a 13 by 13 grid the product is infinite and \<^verbatim>\<open>int()\<close> raises
  \<open>OverflowError\<close>.
\<close>

theorem encode_sample_guard_counterexample:
  "(inf64 (lab_huge ! 0 * 13) \<and> encode_sample cfg0 13 13 lab_huge = Inl OverflowError) \<and>
   \<lfloor>fl64 (lab_far_left ! 0 * 13)\<rfloor> = - 26 \<and> \<lfloor>fl64 (lab_far_left ! 1 * 13)\<rfloor> = 6 \<and>
   encode_sample cfg0 13 13 lab_far_left = Inl IndexError \<and>
   \<lfloor>fl64 (lab_left ! 0 * 13)\<rfloor> = - 2 \<and>
   encode_sample cfg0 13 13 lab_left =
     Inr ((np_zeros 13 13 2 8)[6 := (np_zeros 13 13 2 8 ! 6)[11 := replicate 2 lab_left]]) \<and>
   \<lfloor>fl64 (lab_one ! 0 * (25 / 2))\<rfloor> = 12 \<and>
   encode_sample cfg0 (25 / 2) (25 / 2) lab_one = Inl IndexError"
proof -
  have "(2::rat) ^ 1024 \<le> 2 ^ 1023 * 13" by simp
  then have "inf64 (2 ^ 1023 * 13)" by (rule inf64_ge)
  moreover have "lab_huge ! 0 = 2 ^ 1023" by (simp add: lab_huge_def)
  ultimately have h: "inf64 (lab_huge ! 0 * 13)" by (simp only:)
  have l: "\<not> length lab_huge < 2" by (simp add: lab_huge_def)
  have e: "encode_sample cfg0 13 13 lab_huge = Inl OverflowError"
    unfolding encode_sample_def using h l by (simp only: if_True if_False simp_thms)
  from h e have huge: "inf64 (lab_huge ! 0 * 13) \<and>
      encode_sample cfg0 13 13 lab_huge = Inl OverflowError"
    by (rule conjI)
  have rest: "\<lfloor>fl64 (lab_far_left ! 0 * 13)\<rfloor> = - 26 \<and> \<lfloor>fl64 (lab_far_left ! 1 * 13)\<rfloor> = 6 \<and>
   encode_sample cfg0 13 13 lab_far_left = Inl IndexError \<and>
   \<lfloor>fl64 (lab_left ! 0 * 13)\<rfloor> = - 2 \<and>
   encode_sample cfg0 13 13 lab_left =
     Inr ((np_zeros 13 13 2 8)[6 := (np_zeros 13 13 2 8 ! 6)[11 := replicate 2 lab_left]]) \<and>
   \<lfloor>fl64 (lab_one ! 0 * (25 / 2))\<rfloor> = 12 \<and>
   encode_sample cfg0 (25 / 2) (25 / 2) lab_one = Inl IndexError"
    by code_simp
  from huge rest show ?thesis by (rule conjI)
qed

section \<open>The generator loop\<close>

lemma length_reshape [simp]: "length (reshape y_batch) = length y_batch"
  by (simp add: reshape_def)





















end
